theory Spec2Isabelle
  imports Complex_Main "HOL-Library.AList" "HOL-Library.Log_Nat"
begin

section \<open>Data model\<close>

text \<open>
  The development embeds \<^verbatim>\<open>src/ring_network.py\<close>: \<^verbatim>\<open>create_network\<close>,
  \<^verbatim>\<open>show_node_counts\<close>, \<^verbatim>\<open>prune_markers_minimal\<close> and \<^verbatim>\<open>construct_net\<close>.

  Numbers. A float is the rational number that it stands for. The arithmetic of
  \<^verbatim>\<open>create_network\<close> on the coordinates (the differences, the quotients by the window,
  the products and sums that give the markers) is float64 arithmetic: every operation
  is followed by \<open>fl\<close>, the rounding to the nearest double with ties to the even
  significand, subnormal numbers included. Infinities and NaN are not values of the
  model: the exponent has no upper limit, and the one division that the source can do
  by zero is a case of \<open>marker_count\<close>. The four decimals of the marker name are
  rounded as \<^verbatim>\<open>format\<close> does. The weights of edges are added without rounding.

  Exceptions are values of type \<open>error\<close>; a function that can raise returns
  \<open>error + 'a\<close> with \<open>Inl\<close> for the exception.
\<close>

datatype error = IndexError | ValueError | OverflowError

text \<open>
  A node of a networkx graph is any hashable Python value. The source uses two kinds:
  the row index \<^verbatim>\<open>i\<close> (a Python int) and the marker name, the string
  \<^verbatim>\<open>f'{dim},{value:.4f}'\<close>. Such a string is determined by, and determines, the
  dimension, the sign that is printed and the digits that are printed; \<open>Marker\<close>
  carries these three, the digits as the integer they spell without the decimal point.
\<close>

datatype node = Row nat | Marker nat bool nat

fun is_row :: "node \<Rightarrow> bool" where
  "is_row (Row i) = True"
| "is_row (Marker d s k) = False"

text \<open>
  The attribute dictionary of a node is either empty (\<open>None\<close>, a data point) or
  \<^verbatim>\<open>{marker: True, dim: d, value: v}\<close> (\<open>Some (d, v)\<close>).

  \<open>nodes\<close> is \<^verbatim>\<open>G._node\<close> and \<open>adj\<close> is \<^verbatim>\<open>G._adj\<close>, the dictionary that gives
  for each node the dictionary of its neighbours with the edge's \<^verbatim>\<open>weight\<close>. Python
  dictionaries keep insertion order and the source iterates over them, so they are
  association lists: a new key goes to the end, a known key keeps its place
  (\<open>AList.update\<close>). Every edge that either function creates carries a weight.
  networkx stores one attribute dictionary per undirected edge and reaches it from
  both ends, so every write of a weight below is done at both ends.
\<close>

record graph =
  nodes :: "(node \<times> (nat \<times> rat) option) list"
  adj :: "(node \<times> (node \<times> rat) list) list"

definition empty_graph :: graph where
  "empty_graph = \<lparr>nodes = [], adj = []\<rparr>"

definition has_node :: "graph \<Rightarrow> node \<Rightarrow> bool" where
  "has_node g n = (map_of (nodes g) n \<noteq> None)"

text \<open>\<^verbatim>\<open>G[n]\<close>, for a node of the graph.\<close>

definition adj_of :: "graph \<Rightarrow> node \<Rightarrow> (node \<times> rat) list" where
  "adj_of g n = (case map_of (adj g) n of None \<Rightarrow> [] | Some l \<Rightarrow> l)"

definition has_edge :: "graph \<Rightarrow> node \<Rightarrow> node \<Rightarrow> bool" where
  "has_edge g u v = (map_of (adj_of g u) v \<noteq> None)"

definition neighbors :: "graph \<Rightarrow> node \<Rightarrow> node list" where
  "neighbors g n = map fst (adj_of g n)"

definition add_node :: "graph \<Rightarrow> node \<Rightarrow> (nat \<times> rat) option \<Rightarrow> graph" where
  "add_node g n a =
     (if has_node g n
      then (case a of
              None \<Rightarrow> g
            | Some x \<Rightarrow> g\<lparr>nodes := AList.update n a (nodes g)\<rparr>)
      else g\<lparr>nodes := nodes g @ [(n, a)], adj := adj g @ [(n, [])]\<rparr>)"

definition set_nbr :: "graph \<Rightarrow> node \<Rightarrow> node \<Rightarrow> rat \<Rightarrow> graph" where
  "set_nbr g u v w = g\<lparr>adj := AList.update u (AList.update v w (adj_of g u)) (adj g)\<rparr>"

definition set_weight :: "graph \<Rightarrow> node \<Rightarrow> node \<Rightarrow> rat \<Rightarrow> graph" where
  "set_weight g u v w = set_nbr (set_nbr g u v w) v u w"

definition add_edge :: "graph \<Rightarrow> node \<Rightarrow> node \<Rightarrow> rat \<Rightarrow> graph" where
  "add_edge g u v w = set_weight (add_node (add_node g u None) v None) u v w"

text \<open>
  The source's \<^verbatim>\<open>if G.has_edge(a, b): G[a][b]['weight'] += w else: G.add_edge(a, b, weight=w)\<close>.
\<close>

definition accumulate_edge :: "graph \<Rightarrow> node \<Rightarrow> node \<Rightarrow> rat \<Rightarrow> graph" where
  "accumulate_edge g u v w =
     (case map_of (adj_of g u) v of
        Some w0 \<Rightarrow> set_weight g u v (w0 + w)
      | None \<Rightarrow> add_edge g u v w)"

subsection \<open>numpy and Python primitives\<close>

text \<open>
  A two-dimensional array: \<^verbatim>\<open>data.shape\<close> is \<open>(length (rows data), ncols data)\<close>.
\<close>

record ndarray =
  ncols :: nat
  rows :: "rat list list"

definition well_shaped :: "ndarray \<Rightarrow> bool" where
  "well_shaped data = list_all (\<lambda>r. length r = ncols data) (rows data)"

definition column :: "ndarray \<Rightarrow> nat \<Rightarrow> rat list" where
  "column data d = map (\<lambda>r. r ! d) (rows data)"

text \<open>\<^verbatim>\<open>np.max\<close> and \<^verbatim>\<open>np.min\<close> raise ValueError on an empty array.\<close>

fun np_max :: "rat list \<Rightarrow> error + rat" where
  "np_max [] = Inl ValueError"
| "np_max (x # xs) = Inr (fold max xs x)"

fun np_min :: "rat list \<Rightarrow> error + rat" where
  "np_min [] = Inl ValueError"
| "np_min (x # xs) = Inr (fold min xs x)"

text \<open>\<^verbatim>\<open>int(x)\<close> on a float truncates towards zero.\<close>

definition py_int :: "rat \<Rightarrow> int" where
  "py_int x = (if 0 \<le> x then \<lfloor>x\<rfloor> else \<lceil>x\<rceil>)"

text \<open>
  \<^verbatim>\<open>markers[k]\<close> on a Python list: \<open>k\<close> from \<open>- len\<close> up to \<open>len - 1\<close> is
  accepted, the negative ones read from the back, anything else is an IndexError.
\<close>

definition py_index :: "'a list \<Rightarrow> int \<Rightarrow> error + 'a" where
  "py_index xs k =
     (if 0 \<le> k \<and> k < int (length xs) then Inr (xs ! nat k)
      else if k < 0 \<and> - int (length xs) \<le> k then Inr (xs ! nat (int (length xs) + k))
      else Inl IndexError)"

text \<open>Rounding to the nearest integer, a tie going to the even one.\<close>

definition round_half_even :: "rat \<Rightarrow> int" where
  "round_half_even x =
     (let f = \<lfloor>x\<rfloor>; r = x - of_int f
      in if r < 1 / 2 then f
         else if 1 / 2 < r then f + 1
         else if even f then f else f + 1)"

text \<open>
  float64. \<open>flog2 y\<close> is the floor of the binary logarithm of a positive \<open>y\<close>.
  \<open>ulp_exp x\<close> is the exponent of the unit in the last place of the doubles around
  \<open>x\<close>: 52 below the exponent of \<open>x\<close>, and \<open>- 1074\<close> for the subnormal numbers.
  \<open>fl x\<close> is the multiple of that unit nearest to \<open>x\<close>. \<open>fsub\<close>, \<open>fdiv\<close>, \<open>fmul\<close> and
  \<open>fadd\<close> are \<^verbatim>\<open>-\<close>, \<^verbatim>\<open>/\<close>, \<^verbatim>\<open>*\<close> and \<^verbatim>\<open>+\<close> on floats.
\<close>

definition flog2 :: "rat \<Rightarrow> int" where
  "flog2 y = (if 1 \<le> y then bitlen \<lfloor>y\<rfloor> - 1 else - bitlen (\<lceil>1 / y\<rceil> - 1))"

definition ulp_exp :: "rat \<Rightarrow> int" where
  "ulp_exp x = (if x = 0 then - 1074 else max (flog2 \<bar>x\<bar> - 52) (- 1074))"

definition rnd_at :: "int \<Rightarrow> rat \<Rightarrow> rat" where
  "rnd_at k x = of_int (round_half_even (x / 2 powi k)) * 2 powi k"

definition fl :: "rat \<Rightarrow> rat" where
  "fl x = rnd_at (ulp_exp x) x"

definition fsub :: "rat \<Rightarrow> rat \<Rightarrow> rat" where
  "fsub a b = fl (a - b)"

definition fdiv :: "rat \<Rightarrow> rat \<Rightarrow> rat" where
  "fdiv a b = fl (a / b)"

definition fmul :: "rat \<Rightarrow> rat \<Rightarrow> rat" where
  "fmul a b = fl (a * b)"

definition fadd :: "rat \<Rightarrow> rat \<Rightarrow> rat" where
  "fadd a b = fl (a + b)"

text \<open>
  \<^verbatim>\<open>f'{v:.4f}'\<close> prints the sign of \<open>v\<close> and \<open>\<bar>v\<bar>\<close> rounded to four decimals, a tie
  going to the even digit.
\<close>

definition marker_name :: "nat \<Rightarrow> rat \<Rightarrow> node" where
  "marker_name d v = Marker d (v < 0) (nat (round_half_even (\<bar>v\<bar> * 10000)))"

section \<open>create_network\<close>

text \<open>Lines 23 to 25: the chain of markers of one dimension.\<close>

definition chain_step :: "nat \<Rightarrow> rat \<Rightarrow> rat list \<Rightarrow> nat \<Rightarrow> graph \<Rightarrow> graph" where
  "chain_step d weight markers i g =
     add_edge (add_node g (marker_name d (markers ! i)) (Some (d, markers ! i)))
       (marker_name d (markers ! (i - 1))) (marker_name d (markers ! i)) weight"

text \<open>Lines 28 to 31: every row is joined to the marker below it.\<close>

fun assign_rows ::
  "nat \<Rightarrow> rat \<Rightarrow> rat \<Rightarrow> rat \<Rightarrow> rat list \<Rightarrow> (nat \<times> rat list) list \<Rightarrow> graph \<Rightarrow> error + graph"
where
  "assign_rows d weight window_size min_value markers [] g = Inr g"
| "assign_rows d weight window_size min_value markers ((i, point) # rest) g =
     (case py_index markers (py_int (fdiv (fsub (point ! d) min_value) window_size)) of
        Inl e \<Rightarrow> Inl e
      | Inr lower_marker \<Rightarrow>
          assign_rows d weight window_size min_value markers rest
            (add_edge g (Row i) (marker_name d lower_marker) weight))"

text \<open>
  The number \<^verbatim>\<open>n\<close> of line 18. With \<open>window_size = 0\<close> numpy's division gives
  \<^verbatim>\<open>nan\<close> (0/0) or \<^verbatim>\<open>inf\<close>, and \<^verbatim>\<open>int\<close> raises ValueError or OverflowError.
  In \<open>marker_values\<close>, line 21, \<^verbatim>\<open>i\<close> is a Python int that the product turns into a
  float, without rounding for any list that fits in memory.
\<close>

definition marker_count :: "rat \<Rightarrow> rat \<Rightarrow> rat \<Rightarrow> error + int" where
  "marker_count max_value min_value window_size =
     (if window_size = 0
      then (if fsub max_value min_value = 0 then Inl ValueError else Inl OverflowError)
      else Inr (py_int (fdiv (fsub max_value min_value) window_size) + 1))"

definition marker_values :: "rat \<Rightarrow> rat \<Rightarrow> int \<Rightarrow> rat list" where
  "marker_values window_size min_value n =
     map (\<lambda>i. fadd (fmul window_size (of_int i)) min_value) [0..n]"

text \<open>The body of the loop over the dimensions, lines 12 to 31.\<close>

definition dim_step :: "ndarray \<Rightarrow> rat list \<Rightarrow> rat \<Rightarrow> nat \<Rightarrow> graph \<Rightarrow> error + graph" where
  "dim_step data weights window_size d g =
     (if length weights \<le> d then Inl IndexError
      else
        let weight = weights ! d; dim_values = column data d in
        (case np_max dim_values of Inl e \<Rightarrow> Inl e | Inr max_value \<Rightarrow>
        (case np_min dim_values of Inl e \<Rightarrow> Inl e | Inr min_value \<Rightarrow>
        (case marker_count max_value min_value window_size of Inl e \<Rightarrow> Inl e | Inr n \<Rightarrow>
        (let markers = marker_values window_size min_value n in
        (case markers of
          [] \<Rightarrow> Inl IndexError
        | m0 # ms \<Rightarrow>
            (let g1 = add_node g (marker_name d m0) (Some (d, m0));
                 g2 = fold (chain_step d weight markers) [1..<nat (n + 1)] g1
             in assign_rows d weight window_size min_value markers
                  (enumerate 0 (rows data)) g2)))))))"

fun dims_loop :: "(nat \<Rightarrow> graph \<Rightarrow> error + graph) \<Rightarrow> nat list \<Rightarrow> graph \<Rightarrow> error + graph" where
  "dims_loop f [] g = Inr g"
| "dims_loop f (d # ds) g = (case f d g of Inl e \<Rightarrow> Inl e | Inr g' \<Rightarrow> dims_loop f ds g')"

definition create_network :: "ndarray \<Rightarrow> rat list \<Rightarrow> rat \<Rightarrow> error + graph" where
  "create_network data weights window_size =
     (let g0 = fold (\<lambda>i g. add_node g (Row i) None) [0..<length (rows data)] empty_graph
      in dims_loop (dim_step data weights window_size) [0..<ncols data] g0)"

section \<open>show_node_counts\<close>

record node_counts =
  data_nodes :: nat
  marker_nodes :: nat
  markers_by_dim :: "(nat \<times> nat) list"

text \<open>\<^verbatim>\<open>markers_by_dim[d] += 1\<close> on a \<^verbatim>\<open>defaultdict(int)\<close>.\<close>

definition count_dim :: "nat \<Rightarrow> (nat \<times> nat) list \<Rightarrow> (nat \<times> nat) list" where
  "count_dim d m = (case map_of m d of None \<Rightarrow> m @ [(d, 1)] | Some c \<Rightarrow> AList.update d (c + 1) m)"

definition show_node_counts :: "graph \<Rightarrow> node_counts" where
  "show_node_counts g =
     (let num_data = length (filter (\<lambda>(n, a). a = None) (nodes g));
          by_dim = fold (\<lambda>(n, a) m. case a of None \<Rightarrow> m | Some (d, v) \<Rightarrow> count_dim d m) (nodes g) []
      in \<lparr>data_nodes = num_data, marker_nodes = sum_list (map snd by_dim), markers_by_dim = by_dim\<rparr>)"

section \<open>prune_markers_minimal\<close>

text \<open>\<^verbatim>\<open>markers_by_dim[d['dim']].append((n, d['value']))\<close> on a \<^verbatim>\<open>defaultdict(list)\<close>.\<close>

definition append_marker ::
  "nat \<Rightarrow> node \<times> rat \<Rightarrow> (nat \<times> (node \<times> rat) list) list \<Rightarrow> (nat \<times> (node \<times> rat) list) list"
where
  "append_marker d x m =
     (case map_of m d of None \<Rightarrow> m @ [(d, [x])] | Some l \<Rightarrow> AList.update d (l @ [x]) m)"

definition collect_markers :: "graph \<Rightarrow> (nat \<times> (node \<times> rat) list) list" where
  "collect_markers g =
     fold (\<lambda>(n, a) m. case a of None \<Rightarrow> m | Some (d, v) \<Rightarrow> append_marker d (n, v) m) (nodes g) []"

definition sorted_markers :: "graph \<Rightarrow> (nat \<times> (node \<times> rat) list) list" where
  "sorted_markers g = map (\<lambda>(d, l). (d, sort_key snd l)) (collect_markers g)"

text \<open>\<^verbatim>\<open>[n for n in G.neighbors(marker_name) if isinstance(n, int)]\<close>\<close>

definition row_neighbors :: "graph \<Rightarrow> node \<Rightarrow> node list" where
  "row_neighbors g m = filter is_row (neighbors g m)"

text \<open>\<^verbatim>\<open>G[marker_name][neighbors[0]].get('weight', 1.0)\<close>\<close>

definition edge_weight :: "graph \<Rightarrow> node \<Rightarrow> node \<Rightarrow> rat" where
  "edge_weight g u v = (case map_of (adj_of g u) v of None \<Rightarrow> 1 | Some w \<Rightarrow> w)"

text \<open>Lines 117 to 124: the ring over the neighbours of one marker.\<close>

definition ring :: "node list \<Rightarrow> rat \<Rightarrow> graph \<Rightarrow> graph" where
  "ring nbrs weight gp =
     fold (\<lambda>i g. accumulate_edge g (nbrs ! i) (nbrs ! ((i + 1) mod length nbrs)) weight)
       [0..<length nbrs] gp"

text \<open>Lines 127 to 139: the one edge to the next ring.\<close>

definition bridge :: "graph \<Rightarrow> (node \<times> rat) list \<Rightarrow> nat \<Rightarrow> node list \<Rightarrow> rat \<Rightarrow> graph \<Rightarrow> graph" where
  "bridge g markers marker_idx nbrs weight gp =
     (if int marker_idx < int (length markers) - 1
      then (let next_neighbors = row_neighbors g (fst (markers ! (marker_idx + 1)))
            in if 0 < length next_neighbors
               then accumulate_edge gp (nbrs ! 0) (next_neighbors ! 0) weight
               else gp)
      else gp)"

text \<open>The body of the loop over the markers of one dimension, lines 109 to 139.\<close>

definition marker_step :: "graph \<Rightarrow> (node \<times> rat) list \<Rightarrow> nat \<Rightarrow> graph \<Rightarrow> graph" where
  "marker_step g markers marker_idx gp =
     (let nbrs = row_neighbors g (fst (markers ! marker_idx))
      in if length nbrs = 0 then gp
         else let weight = edge_weight g (fst (markers ! marker_idx)) (nbrs ! 0)
              in bridge g markers marker_idx nbrs weight (ring nbrs weight gp))"

definition prune_dim :: "graph \<Rightarrow> (node \<times> rat) list \<Rightarrow> graph \<Rightarrow> graph" where
  "prune_dim g markers gp = fold (marker_step g markers) [0..<length markers] gp"

definition prune_markers_minimal :: "graph \<Rightarrow> graph" where
  "prune_markers_minimal g =
     (let data_nodes = filter is_row (map fst (nodes g));
          gp0 = fold (\<lambda>n gp. add_node gp n None) data_nodes empty_graph
      in fold (\<lambda>(d, markers) gp. prune_dim g markers gp) (sorted_markers g) gp0)"

section \<open>construct_net\<close>

definition construct_net :: "ndarray \<Rightarrow> rat list \<Rightarrow> rat \<Rightarrow> error + graph" where
  "construct_net data weights window_size =
     (case create_network data weights window_size of
        Inl e \<Rightarrow> Inl e
      | Inr g \<Rightarrow> (let counts = show_node_counts g in Inr (prune_markers_minimal g)))"

section \<open>Observations on a graph\<close>

text \<open>
  \<^verbatim>\<open>G.edges(data='weight')\<close>: every undirected edge once, from the end that comes
  first in the node order.
\<close>

fun edges_from :: "graph \<Rightarrow> node list \<Rightarrow> node list \<Rightarrow> (node \<times> node \<times> rat) list" where
  "edges_from g seen [] = []"
| "edges_from g seen (n # ns) =
     map (\<lambda>(v, w). (n, v, w)) (filter (\<lambda>(v, w). v \<notin> set seen) (adj_of g n))
       @ edges_from g (n # seen) ns"

definition edges :: "graph \<Rightarrow> (node \<times> node \<times> rat) list" where
  "edges g = edges_from g [] (map fst (adj g))"

definition chain_edges :: "graph \<Rightarrow> (node \<times> node \<times> rat) list" where
  "chain_edges g = filter (\<lambda>(u, v, w). \<not> is_row u \<and> \<not> is_row v) (edges g)"

definition assignment_edges :: "graph \<Rightarrow> (node \<times> node \<times> rat) list" where
  "assignment_edges g = filter (\<lambda>(u, v, w). is_row u \<noteq> is_row v) (edges g)"


text \<open>The pairs \<^verbatim>\<open>(dim, value)\<close> of the marker nodes, in node order.\<close>

definition marker_attrs :: "graph \<Rightarrow> (nat \<times> rat) list" where
  "marker_attrs g = List.map_filter snd (nodes g)"

section \<open>The scenario of four rows\<close>

text \<open>
  One column with the values 0, 1, 2, 3, the weight 1 and the window 2. \<open>g0_ex\<close> is the
  graph after line 7, \<open>g2_ex\<close> after line 25, \<open>G_ex\<close> the expanded graph, \<open>gp1_ex\<close>
  the pruned graph after the first marker and \<open>R_ex\<close> the reduced graph.
\<close>

definition example_data :: ndarray where
  "example_data = \<lparr>ncols = 1, rows = [[0], [1], [2], [3]]\<rparr>"

definition g0_ex :: graph where
  "g0_ex = \<lparr>nodes = [(Row 0, None), (Row 1, None), (Row 2, None), (Row 3, None)],
             adj = [(Row 0, []), (Row 1, []), (Row 2, []), (Row 3, [])]\<rparr>"

definition g2_ex :: graph where
  "g2_ex = \<lparr>nodes = [(Row 0, None), (Row 1, None), (Row 2, None), (Row 3, None),
               (Marker 0 False 0, Some (0, 0)), (Marker 0 False 20000, Some (0, 2)),
               (Marker 0 False 40000, Some (0, 4))],
             adj = [(Row 0, []), (Row 1, []), (Row 2, []), (Row 3, []),
               (Marker 0 False 0, [(Marker 0 False 20000, 1)]),
               (Marker 0 False 20000, [(Marker 0 False 0, 1), (Marker 0 False 40000, 1)]),
               (Marker 0 False 40000, [(Marker 0 False 20000, 1)])]\<rparr>"

definition G_ex :: graph where
  "G_ex = \<lparr>nodes = [(Row 0, None), (Row 1, None), (Row 2, None), (Row 3, None),
              (Marker 0 False 0, Some (0, 0)), (Marker 0 False 20000, Some (0, 2)),
              (Marker 0 False 40000, Some (0, 4))],
            adj = [(Row 0, [(Marker 0 False 0, 1)]), (Row 1, [(Marker 0 False 0, 1)]),
              (Row 2, [(Marker 0 False 20000, 1)]), (Row 3, [(Marker 0 False 20000, 1)]),
              (Marker 0 False 0, [(Marker 0 False 20000, 1), (Row 0, 1), (Row 1, 1)]),
              (Marker 0 False 20000,
                 [(Marker 0 False 0, 1), (Marker 0 False 40000, 1), (Row 2, 1), (Row 3, 1)]),
              (Marker 0 False 40000, [(Marker 0 False 20000, 1)])]\<rparr>"

definition ms_ex :: "(node \<times> rat) list" where
  "ms_ex = [(Marker 0 False 0, 0), (Marker 0 False 20000, 2), (Marker 0 False 40000, 4)]"

definition gp1_ex :: graph where
  "gp1_ex = \<lparr>nodes = [(Row 0, None), (Row 1, None), (Row 2, None), (Row 3, None)],
              adj = [(Row 0, [(Row 1, 2), (Row 2, 1)]), (Row 1, [(Row 0, 2)]),
                (Row 2, [(Row 0, 1)]), (Row 3, [])]\<rparr>"

definition R_ex :: graph where
  "R_ex = \<lparr>nodes = [(Row 0, None), (Row 1, None), (Row 2, None), (Row 3, None)],
            adj = [(Row 0, [(Row 1, 2), (Row 2, 1)]), (Row 1, [(Row 0, 2)]),
              (Row 2, [(Row 0, 1), (Row 3, 2)]), (Row 3, [(Row 2, 2)])]\<rparr>"

section \<open>Specification vocabulary\<close>

text \<open>
  \<open>weight_of\<close> is \<^verbatim>\<open>G[a].get(b)\<close>; \<open>wt\<close> reads a missing edge as weight 0. A graph
  is \<open>symmetric\<close> when both ends of every edge see the same weight, as in networkx.
  \<open>joins u v a b\<close> says that the unordered pairs \<open>{u, v}\<close> and \<open>{a, b}\<close> are equal.

  \<open>ring_edges\<close>, \<open>bridge_edges\<close>, \<open>marker_edges\<close>, \<open>dim_edges\<close> and \<open>all_edges\<close> list
  the calls \<^verbatim>\<open>(node1, node2, weight)\<close> of the add-or-accumulate step in the order in
  which the ring, the bridge, one marker, one dimension and the whole of
  \<open>prune_markers_minimal\<close> make them; that the functions do make exactly these calls
  is proved below (\<open>ring_eq\<close> to \<open>prune_eq\<close>).
\<close>

definition weight_of :: "graph \<Rightarrow> node \<Rightarrow> node \<Rightarrow> rat option" where
  "weight_of g a b = map_of (adj_of g a) b"

definition wt :: "graph \<Rightarrow> node \<Rightarrow> node \<Rightarrow> rat" where
  "wt g a b = (case weight_of g a b of None \<Rightarrow> 0 | Some w \<Rightarrow> w)"

definition symmetric :: "graph \<Rightarrow> bool" where
  "symmetric g = (\<forall>u v. weight_of g u v = weight_of g v u)"

definition accumulate_all :: "(node \<times> node \<times> rat) list \<Rightarrow> graph \<Rightarrow> graph" where
  "accumulate_all cs gp = fold (\<lambda>(u, v, w) g. accumulate_edge g u v w) cs gp"

definition joins :: "node \<Rightarrow> node \<Rightarrow> node \<Rightarrow> node \<Rightarrow> bool" where
  "joins u v a b = ((a = u \<and> b = v) \<or> (a = v \<and> b = u))"

definition ring_edges :: "node list \<Rightarrow> rat \<Rightarrow> (node \<times> node \<times> rat) list" where
  "ring_edges nbrs w =
     map (\<lambda>i. (nbrs ! i, nbrs ! ((i + 1) mod length nbrs), w)) [0..<length nbrs]"

definition bridge_edges ::
  "graph \<Rightarrow> (node \<times> rat) list \<Rightarrow> nat \<Rightarrow> node list \<Rightarrow> rat \<Rightarrow> (node \<times> node \<times> rat) list"
where
  "bridge_edges g markers i nbrs w =
     (if Suc i < length markers \<and> row_neighbors g (fst (markers ! Suc i)) \<noteq> []
      then [(nbrs ! 0, row_neighbors g (fst (markers ! Suc i)) ! 0, w)]
      else [])"

definition marker_edges :: "graph \<Rightarrow> (node \<times> rat) list \<Rightarrow> nat \<Rightarrow> (node \<times> node \<times> rat) list" where
  "marker_edges g markers i =
     (let nbrs = row_neighbors g (fst (markers ! i))
      in if nbrs = [] then []
         else ring_edges nbrs (edge_weight g (fst (markers ! i)) (nbrs ! 0))
              @ bridge_edges g markers i nbrs (edge_weight g (fst (markers ! i)) (nbrs ! 0)))"

definition dim_edges :: "graph \<Rightarrow> (node \<times> rat) list \<Rightarrow> (node \<times> node \<times> rat) list" where
  "dim_edges g markers = concat (map (marker_edges g markers) [0..<length markers])"

definition all_edges :: "graph \<Rightarrow> (node \<times> node \<times> rat) list" where
  "all_edges g = concat (map (\<lambda>(d, markers). dim_edges g markers) (sorted_markers g))"

definition pruned_start :: "graph \<Rightarrow> graph" where
  "pruned_start g = fold (\<lambda>n gp. add_node gp n None) (filter is_row (map fst (nodes g))) empty_graph"

text \<open>
  The quantities of one dimension that the loop body of \<open>create_network\<close> computes:
  the column minimum and maximum, the number \<^verbatim>\<open>n\<close>, the list \<^verbatim>\<open>markers\<close>, the
  index of the marker of a row and the name of that marker. \<open>assign_step\<close> is one
  pass of the loop of lines 28 to 31 when the index is in range, \<open>rows_added\<close> the
  graph after line 7 and \<open>dim_graph\<close> the graph after one dimension when nothing
  raises.
\<close>

definition min_of :: "ndarray \<Rightarrow> nat \<Rightarrow> rat" where
  "min_of data d = Min (set (column data d))"

definition max_of :: "ndarray \<Rightarrow> nat \<Rightarrow> rat" where
  "max_of data d = Max (set (column data d))"

definition n_of :: "ndarray \<Rightarrow> rat \<Rightarrow> nat \<Rightarrow> int" where
  "n_of data ws d = py_int (fdiv (fsub (max_of data d) (min_of data d)) ws) + 1"

definition mvals :: "ndarray \<Rightarrow> rat \<Rightarrow> nat \<Rightarrow> rat list" where
  "mvals data ws d = marker_values ws (min_of data d) (n_of data ws d)"

definition bin_index :: "ndarray \<Rightarrow> rat \<Rightarrow> nat \<Rightarrow> nat \<Rightarrow> int" where
  "bin_index data ws d r = py_int (fdiv (fsub (rows data ! r ! d) (min_of data d)) ws)"

definition home :: "ndarray \<Rightarrow> rat \<Rightarrow> nat \<Rightarrow> nat \<Rightarrow> node" where
  "home data ws d r =
     marker_name d (fadd (fmul ws (of_int (bin_index data ws d r))) (min_of data d))"

definition valid_input :: "ndarray \<Rightarrow> rat list \<Rightarrow> rat \<Rightarrow> bool" where
  "valid_input data weights ws = (rows data \<noteq> [] \<and> length weights = ncols data \<and> 0 < ws)"

definition assign_step :: "nat \<Rightarrow> rat \<Rightarrow> rat \<Rightarrow> rat \<Rightarrow> nat \<times> rat list \<Rightarrow> graph \<Rightarrow> graph" where
  "assign_step d w ws mn ip g =
     add_edge g (Row (fst ip))
       (marker_name d
          (fadd (fmul ws (of_int (py_int (fdiv (fsub (snd ip ! d) mn) ws)))) mn)) w"

definition rows_added :: "ndarray \<Rightarrow> graph" where
  "rows_added data = fold (\<lambda>i g. add_node g (Row i) None) [0..<length (rows data)] empty_graph"

definition dim_graph :: "ndarray \<Rightarrow> rat list \<Rightarrow> rat \<Rightarrow> nat \<Rightarrow> graph \<Rightarrow> graph" where
  "dim_graph data weights ws d g =
     fold (assign_step d (weights ! d) ws (min_of data d)) (enumerate 0 (rows data))
       (fold (chain_step d (weights ! d) (mvals data ws d)) [1..<nat (n_of data ws d + 1)]
          (add_node g (marker_name d (mvals data ws d ! 0)) (Some (d, mvals data ws d ! 0))))"

text \<open>
  \<open>dim_pair data ws d a b\<close>: dimension \<open>d\<close> of the builder writes the edge between
  \<open>a\<close> and \<open>b\<close>, as the assignment edge of some row or as a chain edge.
  \<open>expanded\<close> is the graph that \<open>create_network\<close> returns on a valid input
  (\<open>create_network_expanded\<close>). \<open>node_dim\<close> reads the dimension off a marker name.
\<close>

definition dim_pair :: "ndarray \<Rightarrow> rat \<Rightarrow> nat \<Rightarrow> node \<Rightarrow> node \<Rightarrow> bool" where
  "dim_pair data ws d a b =
     ((\<exists>r<length (rows data). joins (Row r) (home data ws d r) a b)
      \<or> (\<exists>i\<in>set [1..<nat (n_of data ws d + 1)].
            joins (marker_name d (mvals data ws d ! (i - 1)))
                  (marker_name d (mvals data ws d ! i)) a b))"

definition expanded :: "ndarray \<Rightarrow> rat list \<Rightarrow> rat \<Rightarrow> graph" where
  "expanded data weights ws = fold (dim_graph data weights ws) [0..<ncols data] (rows_added data)"

fun node_dim :: "node \<Rightarrow> nat option" where
  "node_dim (Row i) = None"
| "node_dim (Marker d s k) = Some d"

text \<open>
  \<open>ins_node\<close> is what \<^verbatim>\<open>add_node\<close> does to the node dictionary, \<open>marker_ins\<close> the
  insertion of one marker, and \<open>expanded_nodes\<close> the node dictionary that the calls of
  \<^verbatim>\<open>add_node\<close> build over the dimensions \<open>ds\<close>. \<open>adj_distinct\<close>: no neighbour
  dictionary holds a key twice.
\<close>

definition ins_node ::
  "(node \<times> (nat \<times> rat) option) list \<Rightarrow> node \<Rightarrow> (nat \<times> rat) option
     \<Rightarrow> (node \<times> (nat \<times> rat) option) list"
where
  "ins_node ns n a =
     (if map_of ns n \<noteq> None
      then (case a of None \<Rightarrow> ns | Some x \<Rightarrow> AList.update n a ns)
      else ns @ [(n, a)])"

definition marker_ins ::
  "nat \<Rightarrow> rat \<Rightarrow> (node \<times> (nat \<times> rat) option) list \<Rightarrow> (node \<times> (nat \<times> rat) option) list"
where
  "marker_ins d v ns = ins_node ns (marker_name d v) (Some (d, v))"

definition adj_distinct :: "graph \<Rightarrow> bool" where
  "adj_distinct g = (\<forall>x. distinct (map fst (adj_of g x)))"

definition expanded_nodes ::
  "ndarray \<Rightarrow> rat \<Rightarrow> nat list \<Rightarrow> (node \<times> (nat \<times> rat) option) list"
where
  "expanded_nodes data ws ds =
     fold (\<lambda>d. fold (marker_ins d) (mvals data ws d)) ds
       (map (\<lambda>i. (Row i, None)) [0..<length (rows data)])"

section \<open>Two inputs of one row\<close>

text \<open>
  One row with the value 0 and the weight 1. \<open>G_neg\<close> is the expanded graph for the
  window \<open>- 1\<close>; \<open>G_tiny\<close> and \<open>R_tiny\<close> are the expanded and the reduced graph for the
  window 1/32768, where both markers print as \<^verbatim>\<open>0,0.0000\<close>.
\<close>

definition one_row :: ndarray where
  "one_row = \<lparr>ncols = 1, rows = [[0]]\<rparr>"

definition g0_one :: graph where
  "g0_one = \<lparr>nodes = [(Row 0, None)], adj = [(Row 0, [])]\<rparr>"

definition G_neg :: graph where
  "G_neg = \<lparr>nodes = [(Row 0, None), (Marker 0 False 0, Some (0, 0)),
               (Marker 0 True 10000, Some (0, - 1))],
             adj = [(Row 0, [(Marker 0 False 0, 1)]),
               (Marker 0 False 0, [(Marker 0 True 10000, 1), (Row 0, 1)]),
               (Marker 0 True 10000, [(Marker 0 False 0, 1)])]\<rparr>"

definition G_tiny :: graph where
  "G_tiny = \<lparr>nodes = [(Row 0, None), (Marker 0 False 0, Some (0, 1 / 32768))],
              adj = [(Row 0, [(Marker 0 False 0, 1)]),
                (Marker 0 False 0, [(Marker 0 False 0, 1), (Row 0, 1)])]\<rparr>"

definition R_tiny :: graph where
  "R_tiny = \<lparr>nodes = [(Row 0, None)], adj = [(Row 0, [(Row 0, 1)])]\<rparr>"

text \<open>
  \<open>dim_entries ns d\<close>: the pairs (name, value) of the marker nodes of dimension \<open>d\<close> in
  the node dictionary \<open>ns\<close>, in order. \<open>collect_step\<close> is the body of the loop of
  lines 97 to 99.
\<close>

definition dim_entries :: "(node \<times> (nat \<times> rat) option) list \<Rightarrow> nat \<Rightarrow> (node \<times> rat) list" where
  "dim_entries ns d =
     List.map_filter
       (\<lambda>(n, a). case a of None \<Rightarrow> None | Some (d', v) \<Rightarrow> if d' = d then Some (n, v) else None) ns"

definition collect_step ::
  "node \<times> (nat \<times> rat) option \<Rightarrow> (nat \<times> (node \<times> rat) list) list \<Rightarrow> (nat \<times> (node \<times> rat) list) list"
where
  "collect_step = (\<lambda>(n, a) m. case a of None \<Rightarrow> m | Some (d, v) \<Rightarrow> append_marker d (n, v) m)"

text \<open>
  \<open>touches r c\<close>: the call \<open>c\<close> of the add-or-accumulate step has \<open>r\<close> as one of its two
  nodes. \<open>contribution cs r\<close> is the weight that the calls \<open>cs\<close> add to edges at \<open>r\<close>.
  \<open>dim_markers g d\<close> is the list \<^verbatim>\<open>markers_by_dim[d]\<close> after it is sorted by value, empty
  when the graph has no marker of dimension \<open>d\<close>.
\<close>

definition touches :: "node \<Rightarrow> node \<times> node \<times> rat \<Rightarrow> bool" where
  "touches r c = (fst c = r \<or> fst (snd c) = r)"

definition contribution :: "(node \<times> node \<times> rat) list \<Rightarrow> node \<Rightarrow> rat" where
  "contribution cs r = sum_list (map (\<lambda>c. snd (snd c)) (filter (touches r) cs))"

definition dim_markers :: "graph \<Rightarrow> nat \<Rightarrow> (node \<times> rat) list" where
  "dim_markers g d = sort_key snd (dim_entries (nodes g) d)"

text \<open>
  Four rows in three consecutive bins, the middle one with two rows, and the graphs
  that \<open>create_network\<close> builds from them with the weight 1 and the window 2.
\<close>

definition three_bins :: ndarray where
  "three_bins = \<lparr>ncols = 1, rows = [[0], [2], [3], [4]]\<rparr>"

definition g3_tb :: graph where
  "g3_tb = \<lparr>nodes = [(Row 0, None), (Row 1, None), (Row 2, None), (Row 3, None),
               (Marker 0 False 0, Some (0, 0)), (Marker 0 False 20000, Some (0, 2)),
               (Marker 0 False 40000, Some (0, 4)), (Marker 0 False 60000, Some (0, 6))],
             adj = [(Row 0, []), (Row 1, []), (Row 2, []), (Row 3, []),
               (Marker 0 False 0, [(Marker 0 False 20000, 1)]),
               (Marker 0 False 20000, [(Marker 0 False 0, 1), (Marker 0 False 40000, 1)]),
               (Marker 0 False 40000, [(Marker 0 False 20000, 1), (Marker 0 False 60000, 1)]),
               (Marker 0 False 60000, [(Marker 0 False 40000, 1)])]\<rparr>"

definition G_tb :: graph where
  "G_tb = \<lparr>nodes = [(Row 0, None), (Row 1, None), (Row 2, None), (Row 3, None),
              (Marker 0 False 0, Some (0, 0)), (Marker 0 False 20000, Some (0, 2)),
              (Marker 0 False 40000, Some (0, 4)), (Marker 0 False 60000, Some (0, 6))],
            adj = [(Row 0, [(Marker 0 False 0, 1)]), (Row 1, [(Marker 0 False 20000, 1)]),
              (Row 2, [(Marker 0 False 20000, 1)]), (Row 3, [(Marker 0 False 40000, 1)]),
              (Marker 0 False 0, [(Marker 0 False 20000, 1), (Row 0, 1)]),
              (Marker 0 False 20000,
                 [(Marker 0 False 0, 1), (Marker 0 False 40000, 1), (Row 1, 1), (Row 2, 1)]),
              (Marker 0 False 40000,
                 [(Marker 0 False 20000, 1), (Marker 0 False 60000, 1), (Row 3, 1)]),
              (Marker 0 False 60000, [(Marker 0 False 40000, 1)])]\<rparr>"

definition ms_tb :: "(node \<times> rat) list" where
  "ms_tb = [(Marker 0 False 0, 0), (Marker 0 False 20000, 2), (Marker 0 False 40000, 4),
            (Marker 0 False 60000, 6)]"

section \<open>Rounding to a double\<close>

lemma flog2_bounds:
  assumes "0 < y"
  shows "2 powi flog2 y \<le> y" "y < 2 powi (flog2 y + 1)"
proof -
  have "2 powi flog2 y \<le> y \<and> y < 2 powi (flog2 y + 1)"
  proof (cases "1 \<le> y")
    case True
    let ?n = "\<lfloor>y\<rfloor>"
    let ?b = "bitlen ?n"
    from True have n: "0 < ?n" by simp
    from bitlen_bounds[OF n] have lo: "2 ^ nat (?b - 1) \<le> ?n" and hi: "?n < 2 ^ nat ?b"
      by simp_all
    have b1: "1 \<le> ?b" using n by (simp add: bitlen_alt_def)
    have "(2 :: rat) powi (?b - 1) = of_int (2 ^ nat (?b - 1))"
      using b1 by (simp add: power_int_def)
    also have "\<dots> \<le> of_int ?n" using lo by (simp only: of_int_le_iff)
    also have "\<dots> \<le> y" by simp
    finally have 1: "2 powi (?b - 1) \<le> y" .
    have "y < of_int (?n + 1)" by linarith
    also have "\<dots> \<le> of_int (2 ^ nat ?b)" using hi by (simp only: of_int_le_iff)
    also have "\<dots> = (2 :: rat) powi ?b" using b1 by (simp add: power_int_def)
    finally have 2: "y < 2 powi ?b" .
    show ?thesis using True 1 2 by (simp add: flog2_def)
  next
    case False
    let ?t = "1 / y"
    let ?m = "\<lceil>?t\<rceil> - 1"
    let ?b = "bitlen ?m"
    from False assms have t1: "1 < ?t" by simp
    then have m: "0 < ?m" by linarith
    from bitlen_bounds[OF m] have lo: "2 ^ nat (?b - 1) \<le> ?m" and hi: "?m < 2 ^ nat ?b"
      by simp_all
    have b1: "1 \<le> ?b" using m by (simp add: bitlen_alt_def)
    have mt: "of_int ?m < ?t" by linarith
    have tm: "?t \<le> of_int (?m + 1)" by simp
    have "?t \<le> of_int (?m + 1)" by (rule tm)
    also have "\<dots> \<le> of_int (2 ^ nat ?b)" using hi by (simp only: of_int_le_iff)
    also have "\<dots> = (2 :: rat) ^ nat ?b" by simp
    finally have tu: "?t \<le> 2 ^ nat ?b" .
    have "(2 :: rat) ^ nat (?b - 1) = of_int (2 ^ nat (?b - 1))" by simp
    also have "\<dots> \<le> of_int ?m" using lo by (simp only: of_int_le_iff)
    also have "\<dots> < ?t" by (rule mt)
    finally have tl: "2 ^ nat (?b - 1) < ?t" .
    have 1: "2 powi (- ?b) \<le> y"
    proof -
      have "1 \<le> 2 ^ nat ?b * y" using tu assms by (simp add: field_simps)
      then have "1 / 2 ^ nat ?b \<le> y" by (simp add: field_simps)
      moreover have "(2 :: rat) powi (- ?b) = 1 / 2 ^ nat ?b"
        using b1 by (simp add: power_int_def inverse_eq_divide power_divide)
      ultimately show ?thesis by simp
    qed
    have 2: "y < 2 powi (- ?b + 1)"
    proof -
      have "2 ^ nat (?b - 1) * y < 1" using tl assms by (simp add: field_simps)
      then have "y < 1 / 2 ^ nat (?b - 1)" by (simp add: field_simps)
      moreover have "(2 :: rat) powi (- ?b + 1) = 1 / 2 ^ nat (?b - 1)"
      proof (cases "?b = 1")
        case True
        then show ?thesis by simp
      next
        case False
        with b1 have "- ?b + 1 < 0" by simp
        then show ?thesis by (simp add: power_int_def inverse_eq_divide power_divide)
      qed
      ultimately show ?thesis by simp
    qed
    show ?thesis using False 1 2 by (simp add: flog2_def)
  qed
  then show "2 powi flog2 y \<le> y" "y < 2 powi (flog2 y + 1)" by simp_all
qed

lemma ulp_exp_upper: "\<bar>x\<bar> < 2 powi (ulp_exp x + 53)"
proof (cases "x = 0")
  case True
  then show ?thesis by simp
next
  case False
  then have p: "0 < \<bar>x\<bar>" by simp
  have "\<bar>x\<bar> < 2 powi (flog2 \<bar>x\<bar> + 1)" by (rule flog2_bounds(2)[OF p])
  also have "\<dots> \<le> 2 powi (ulp_exp x + 53)"
    by (rule power_int_increasing) (use False in \<open>simp_all add: ulp_exp_def\<close>)
  finally show ?thesis .
qed

lemma ulp_exp_lower: "ulp_exp x = - 1074 \<or> 2 powi (ulp_exp x + 52) \<le> \<bar>x\<bar>"
proof (cases "x = 0 \<or> flog2 \<bar>x\<bar> - 52 \<le> - 1074")
  case True
  then show ?thesis by (auto simp: ulp_exp_def)
next
  case False
  then have p: "0 < \<bar>x\<bar>" and k: "ulp_exp x = flog2 \<bar>x\<bar> - 52" by (auto simp: ulp_exp_def)
  from flog2_bounds(1)[OF p] show ?thesis by (simp add: k)
qed

lemma ulp_exp_ge: "- 1074 \<le> ulp_exp x"
  by (simp add: ulp_exp_def)

lemma ulp_exp_minus [simp]: "ulp_exp (- x) = ulp_exp x"
  by (simp add: ulp_exp_def)

lemma ulp_exp_mono:
  assumes "\<bar>x\<bar> \<le> \<bar>y\<bar>"
  shows "ulp_exp x \<le> ulp_exp y"
proof (rule ccontr)
  assume "\<not> ulp_exp x \<le> ulp_exp y"
  then have lt: "ulp_exp y < ulp_exp x" by simp
  with ulp_exp_ge[of y] have "ulp_exp x \<noteq> - 1074" by linarith
  with ulp_exp_lower[of x] have "2 powi (ulp_exp x + 52) \<le> \<bar>x\<bar>" by blast
  also have "\<dots> \<le> \<bar>y\<bar>" by (rule assms)
  also have "\<dots> < 2 powi (ulp_exp y + 53)" by (rule ulp_exp_upper)
  also have "\<dots> \<le> 2 powi (ulp_exp x + 52)"
    by (rule power_int_increasing) (use lt in simp_all)
  finally show False by simp
qed

lemma ulp_exp_eq:
  assumes "2 powi (k + 52) \<le> \<bar>x\<bar>" "\<bar>x\<bar> < 2 powi (k + 53)" "- 1074 \<le> k"
  shows "ulp_exp x = k"
proof (rule antisym)
  show "ulp_exp x \<le> k"
  proof (rule ccontr)
    assume "\<not> ulp_exp x \<le> k"
    then have gt: "k < ulp_exp x" by simp
    with assms(3) have "ulp_exp x \<noteq> - 1074" by linarith
    with ulp_exp_lower[of x] have "2 powi (ulp_exp x + 52) \<le> \<bar>x\<bar>" by blast
    also note assms(2)
    also have "(2 :: rat) powi (k + 53) \<le> 2 powi (ulp_exp x + 52)"
      by (rule power_int_increasing) (use gt in simp_all)
    finally show False by simp
  qed
  show "k \<le> ulp_exp x"
  proof (rule ccontr)
    assume "\<not> k \<le> ulp_exp x"
    then have lt: "ulp_exp x < k" by simp
    note assms(1)
    also have "\<bar>x\<bar> < 2 powi (ulp_exp x + 53)" by (rule ulp_exp_upper)
    also have "(2 :: rat) powi (ulp_exp x + 53) \<le> 2 powi (k + 52)"
      by (rule power_int_increasing) (use lt in simp_all)
    finally show False by simp
  qed
qed

lemma round_half_even_int [simp]: "round_half_even (of_int m) = m"
  by (simp add: round_half_even_def)

lemma round_half_even_range:
  "round_half_even x = \<lfloor>x\<rfloor> \<or> round_half_even x = \<lfloor>x\<rfloor> + 1"
  by (simp add: round_half_even_def Let_def)

lemma round_half_even_mono:
  assumes "x \<le> y"
  shows "round_half_even x \<le> round_half_even y"
proof (cases "\<lfloor>x\<rfloor> = \<lfloor>y\<rfloor>")
  case True
  then show ?thesis using assms by (auto simp: round_half_even_def Let_def)
next
  case False
  with assms have "\<lfloor>x\<rfloor> < \<lfloor>y\<rfloor>" using floor_mono[OF assms] by linarith
  then show ?thesis using round_half_even_range[of x] round_half_even_range[of y] by linarith
qed

lemma round_half_even_minus: "round_half_even (- x) = - round_half_even x"
proof (cases "x = of_int \<lfloor>x\<rfloor>")
  case True
  then obtain m where "x = of_int m" ..
  then have "- x = of_int (- m)" by simp
  then show ?thesis unfolding \<open>x = of_int m\<close> by (simp only: round_half_even_int)
next
  case False
  then have lt: "of_int \<lfloor>x\<rfloor> < x" using of_int_floor_le[of x] by linarith
  have fm: "\<lfloor>- x\<rfloor> = - \<lfloor>x\<rfloor> - 1"
  proof (rule floor_unique)
    show "of_int (- \<lfloor>x\<rfloor> - 1) \<le> - x" by simp linarith
    show "- x < of_int (- \<lfloor>x\<rfloor> - 1) + 1" using lt by simp
  qed
  show ?thesis using lt by (auto simp: round_half_even_def Let_def fm)
qed

lemma fl_zero [simp]: "fl 0 = 0"
  by (simp add: fl_def rnd_at_def round_half_even_def)

lemma fl_minus: "fl (- x) = - fl x"
  by (simp add: fl_def rnd_at_def round_half_even_minus)

lemma fl_rnd_at: "fl x = rnd_at (ulp_exp x) x"
  by (simp add: fl_def)

lemma rnd_at_mono: "x \<le> y \<Longrightarrow> rnd_at k x \<le> rnd_at k y"
  unfolding rnd_at_def
  by (intro mult_right_mono round_half_even_mono divide_right_mono iffD2[OF of_int_le_iff]) simp_all

lemma rnd_at_grid: "j \<le> k \<Longrightarrow> rnd_at j (of_int m * 2 powi k) = of_int m * 2 powi k"
proof -
  assume jk: "j \<le> k"
  have "(2 :: rat) powi k = 2 powi (k - j) * 2 powi j"
    by (simp add: power_int_add[symmetric])
  moreover have "(2 :: rat) powi (k - j) = of_int (2 ^ nat (k - j))"
    using jk by (simp add: power_int_def)
  ultimately have e: "of_int m * (2 :: rat) powi k = of_int (m * 2 ^ nat (k - j)) * 2 powi j"
    by simp
  have c: "of_int (m * 2 ^ nat (k - j)) * (2 :: rat) powi j / 2 powi j = of_int (m * 2 ^ nat (k - j))"
    by simp
  show ?thesis unfolding e rnd_at_def c by (simp only: round_half_even_int)
qed

lemma fl_mono_nonneg:
  assumes "0 \<le> x" "x \<le> y"
  shows "fl x \<le> fl y"
proof -
  have le: "ulp_exp x \<le> ulp_exp y" by (rule ulp_exp_mono) (use assms in simp)
  show ?thesis
  proof (cases "ulp_exp x = ulp_exp y")
    case True
    then show ?thesis using rnd_at_mono[OF assms(2)] by (simp add: fl_rnd_at)
  next
    case False
    with le have lt: "ulp_exp x < ulp_exp y" by simp
    with ulp_exp_ge[of x] have "ulp_exp y \<noteq> - 1074" by linarith
    with ulp_exp_lower[of y] assms have ylo: "2 powi (ulp_exp y + 52) \<le> y" by auto
    have xhi: "x \<le> 2 powi (ulp_exp x + 53)" using ulp_exp_upper[of x] assms by simp
    have g1: "rnd_at (ulp_exp x) (2 powi (ulp_exp x + 53)) = 2 powi (ulp_exp x + 53)"
      using rnd_at_grid[of "ulp_exp x" "ulp_exp x + 53" 1] by simp
    have g2: "rnd_at (ulp_exp y) (2 powi (ulp_exp y + 52)) = 2 powi (ulp_exp y + 52)"
      using rnd_at_grid[of "ulp_exp y" "ulp_exp y + 52" 1] by simp
    have "fl x \<le> rnd_at (ulp_exp x) (2 powi (ulp_exp x + 53))"
      unfolding fl_rnd_at by (rule rnd_at_mono[OF xhi])
    also have "\<dots> = 2 powi (ulp_exp x + 53)" by (rule g1)
    also have "\<dots> \<le> 2 powi (ulp_exp y + 52)"
      by (rule power_int_increasing) (use lt in simp_all)
    also have "\<dots> = rnd_at (ulp_exp y) (2 powi (ulp_exp y + 52))" by (rule g2[symmetric])
    also have "\<dots> \<le> fl y" unfolding fl_rnd_at by (rule rnd_at_mono[OF ylo])
    finally show ?thesis .
  qed
qed

lemma fl_nonneg: "0 \<le> x \<Longrightarrow> 0 \<le> fl x"
  using fl_mono_nonneg[of 0 x] by simp

lemma fl_mono:
  assumes "x \<le> y"
  shows "fl x \<le> fl y"
proof -
  consider "0 \<le> x" | "x < 0" "0 \<le> y" | "y < 0" using assms by linarith
  then show ?thesis
  proof cases
    case 1
    then show ?thesis by (rule fl_mono_nonneg[OF _ assms])
  next
    case 2
    have "0 \<le> fl (- x)" by (rule fl_nonneg) (use 2 in simp)
    then have "fl x \<le> 0" by (simp add: fl_minus)
    also have "0 \<le> fl y" by (rule fl_nonneg[OF 2(2)])
    finally show ?thesis .
  next
    case 3
    have "fl (- y) \<le> fl (- x)" by (rule fl_mono_nonneg) (use 3 assms in simp_all)
    then show ?thesis by (simp add: fl_minus)
  qed
qed

lemma fl_exact:
  assumes "\<bar>m\<bar> < 2 ^ 53" "- 1074 \<le> e"
  shows "fl (of_int m * 2 powi e) = of_int m * 2 powi e"
proof -
  let ?x = "of_int m * (2 :: rat) powi e"
  have "ulp_exp ?x \<le> e"
  proof (rule ccontr)
    assume "\<not> ulp_exp ?x \<le> e"
    then have gt: "e < ulp_exp ?x" by simp
    with assms(2) have "ulp_exp ?x \<noteq> - 1074" by linarith
    with ulp_exp_lower[of ?x] have "2 powi (ulp_exp ?x + 52) \<le> \<bar>?x\<bar>" by blast
    also have "\<bar>?x\<bar> = of_int \<bar>m\<bar> * 2 powi e" by (simp add: abs_mult)
    also have "\<dots> < of_int (2 ^ 53) * 2 powi e"
      by (rule mult_strict_right_mono) (use assms(1) in \<open>simp_all only: of_int_less_iff zero_less_power_int zero_less_numeral\<close>)
    also have "\<dots> = 2 powi (e + 53)" by (simp add: power_int_add)
    also have "\<dots> \<le> 2 powi (ulp_exp ?x + 52)"
      by (rule power_int_increasing) (use gt in simp_all)
    finally show False by simp
  qed
  then show ?thesis unfolding fl_rnd_at by (rule rnd_at_grid)
qed

lemma fl_of_int: "\<bar>m\<bar> < 2 ^ 53 \<Longrightarrow> fl (of_int m) = of_int m"
  using fl_exact[of m 0] by simp

text \<open>The operations on floats keep the order and the sign.\<close>

lemma fsub_nonneg: "b \<le> a \<Longrightarrow> 0 \<le> fsub a b"
  by (simp add: fsub_def fl_nonneg)

lemma fsub_mono: "a \<le> a' \<Longrightarrow> fsub a b \<le> fsub a' b"
  by (simp add: fsub_def fl_mono)

lemma fsub_self [simp]: "fsub a a = 0"
  by (simp add: fsub_def)

lemma fdiv_nonneg: "0 \<le> a \<Longrightarrow> 0 < w \<Longrightarrow> 0 \<le> fdiv a w"
  by (simp add: fdiv_def fl_nonneg)

lemma fdiv_mono: "a \<le> a' \<Longrightarrow> 0 < w \<Longrightarrow> fdiv a w \<le> fdiv a' w"
  by (simp add: fdiv_def fl_mono divide_right_mono)

text \<open>Doubles that the evaluations below meet.\<close>

lemma fl_numeral:
  "(numeral n :: int) < 9007199254740992 \<Longrightarrow> fl (numeral n) = numeral n"
  using fl_of_int[of "numeral n"] by simp

lemma fl_neg_numeral:
  "(numeral n :: int) < 9007199254740992 \<Longrightarrow> fl (- numeral n) = - numeral n"
  by (simp add: fl_minus fl_numeral)

lemma fl_one [simp]: "fl 1 = 1"
  using fl_of_int[of 1] by simp

lemma fl_neg_one [simp]: "fl (- 1) = - 1"
  by (simp add: fl_minus)

lemma fl_half_numeral:
  "(numeral n :: int) < 9007199254740992 \<Longrightarrow> fl (numeral n / 2) = numeral n / 2"
  using fl_exact[of "numeral n" "- 1"] by (simp add: power_int_minus field_simps)

lemma fl_half [simp]: "fl (1 / 2) = 1 / 2"
  using fl_exact[of 1 "- 1"] by (simp add: power_int_minus field_simps)

lemma fl_window [simp]: "fl (1 / 32768) = 1 / 32768"
  using fl_exact[of 1 "- 15"] by (simp add: power_int_minus field_simps)

lemmas fl_eval = fsub_def fdiv_def fmul_def fadd_def fl_numeral fl_neg_numeral fl_half_numeral

section \<open>Evaluation\<close>

text \<open>Floors and ceilings of rational literals.\<close>

lemma floor_rat_numeral [simp]:
  "\<lfloor>(numeral a :: rat) / numeral b\<rfloor> = numeral a div numeral b"
  using floor_divide_of_int_eq[of "numeral a" "numeral b", where 'a = rat] by simp

lemma floor_rat_one_numeral [simp]: "\<lfloor>(1 :: rat) / numeral b\<rfloor> = 1 div numeral b"
  using floor_divide_of_int_eq[of "1" "numeral b", where 'a = rat] by simp

lemma floor_rat_neg_numeral [simp]:
  "\<lfloor>- ((numeral a :: rat) / numeral b)\<rfloor> = - numeral a div numeral b"
  using floor_divide_of_int_eq[of "- numeral a" "numeral b", where 'a = rat] by simp

lemma ceiling_rat_neg_numeral [simp]:
  "\<lceil>- ((numeral a :: rat) / numeral b)\<rceil> = - (numeral a div numeral b)"
  by (simp add: ceiling_def)

lemma ceiling_rat_neg_one_numeral [simp]:
  "\<lceil>- ((1 :: rat) / numeral b)\<rceil> = - (1 div numeral b)"
  by (simp add: ceiling_def)

text \<open>
  A place where the doubles and the exact numbers part: the maximum \<open>2^53\<close>, the minimum
  \<open>- 1\<close> and the window 3002399751580331. The difference \<open>2^53 + 1\<close> is a tie and rounds
  to \<open>2^53\<close>, the quotient rounds below 3, and \<^verbatim>\<open>n\<close> is 3, where the exact quotient
  is 3 and would give 4.
\<close>

lemma rounding_example:
  "fsub 9007199254740992 (- 1) = 9007199254740992"
  "fdiv 9007199254740992 3002399751580331 = 6755399441055743 / 2251799813685248"
  "marker_count 9007199254740992 (- 1) 3002399751580331 = Inr 3"
  "\<lfloor>(9007199254740992 - (- 1) :: rat) / 3002399751580331\<rfloor> + 1 = 4"
proof -
  have k1: "ulp_exp 9007199254740993 = 1"
    by (rule ulp_exp_eq) simp_all
  show 1: "fsub 9007199254740992 (- 1) = 9007199254740992"
    by (simp add: fsub_def fl_def k1 rnd_at_def round_half_even_def)
  have k2: "ulp_exp (9007199254740992 / 3002399751580331) = - 51"
    by (rule ulp_exp_eq) (simp_all add: power_int_minus)
  show 2: "fdiv 9007199254740992 3002399751580331 = 6755399441055743 / 2251799813685248"
    by (simp add: fdiv_def fl_def k2 rnd_at_def round_half_even_def power_int_minus)
  show "marker_count 9007199254740992 (- 1) 3002399751580331 = Inr 3"
    by (simp add: marker_count_def 1 2 py_int_def)
  show "\<lfloor>(9007199254740992 - (- 1) :: rat) / 3002399751580331\<rfloor> + 1 = 4"
    by simp
qed

lemmas graph_defs = empty_graph_def has_node_def has_edge_def neighbors_def add_node_def
  set_weight_def set_nbr_def adj_of_def add_edge_def accumulate_edge_def

text \<open>The two loop bodies without their local names.\<close>

lemma dim_step_eval:
  "d < length weights \<Longrightarrow> np_max (column data d) = Inr mx \<Longrightarrow>
   np_min (column data d) = Inr mn \<Longrightarrow> marker_count mx mn ws = Inr n \<Longrightarrow>
   marker_values ws mn n = m0 # ms \<Longrightarrow>
   dim_step data weights ws d g =
     assign_rows d (weights ! d) ws mn (m0 # ms) (enumerate 0 (rows data))
       (fold (chain_step d (weights ! d) (m0 # ms)) [1..<nat (n + 1)]
          (add_node g (marker_name d m0) (Some (d, m0))))"
  by (simp add: dim_step_def Let_def)

lemma marker_step_eval:
  "row_neighbors g (fst (markers ! i)) = [] \<Longrightarrow> marker_step g markers i gp = gp"
  "row_neighbors g (fst (markers ! i)) = n # ns \<Longrightarrow> marker_step g markers i gp =
     bridge g markers i (n # ns) (edge_weight g (fst (markers ! i)) n)
       (ring (n # ns) (edge_weight g (fst (markers ! i)) n) gp)"
  by (simp_all add: marker_step_def Let_def)

subsection \<open>The scenario of four rows\<close>

lemma ex_g0:
  "fold (\<lambda>i g. add_node g (Row i) None) [0..<length (rows example_data)] empty_graph = g0_ex"
  by (simp add: example_data_def g0_ex_def graph_defs upt_rec)

lemma ex_names:
  "marker_name 0 0 = Marker 0 False 0"
  "marker_name 0 2 = Marker 0 False 20000"
  "marker_name 0 4 = Marker 0 False 40000"
  by (simp_all add: marker_name_def round_half_even_def)

lemma ex_chain:
  "fold (chain_step 0 1 [0, 2, 4]) [1..<3] (add_node g0_ex (Marker 0 False 0) (Some (0, 0))) = g2_ex"
  by (simp add: g0_ex_def g2_ex_def chain_step_def ex_names graph_defs upt_rec)

lemma ex_assign:
  "assign_rows 0 1 2 0 [0, 2, 4] (enumerate 0 (rows example_data)) g2_ex = Inr G_ex"
  by (simp add: fl_eval example_data_def G_ex_def g2_ex_def py_index_def py_int_def ex_names graph_defs)

lemma ex_col: "column example_data 0 = [0, 1, 2, 3]"
  by (simp add: column_def example_data_def)

lemma ex_dim: "dim_step example_data [1] 2 0 g0_ex = Inr G_ex"
proof -
  have 1: "np_max (column example_data 0) = Inr 3" by (simp add: ex_col)
  have 2: "np_min (column example_data 0) = Inr 0" by (simp add: ex_col)
  have 3: "marker_count 3 0 2 = Inr 2" by (simp add: fl_eval marker_count_def py_int_def)
  have 4: "marker_values 2 0 2 = [0, 2, 4]" by (simp add: fl_eval marker_values_def upto.simps)
  show ?thesis
    using dim_step_eval[of 0 "[1]" example_data 3 0 2 2 0 "[2, 4]" g0_ex, OF _ 1 2 3 4]
      ex_chain ex_assign
    by (simp add: ex_names)
qed

lemma example_expanded: "create_network example_data [1] 2 = Inr G_ex"
  using ex_dim ex_g0 by (simp add: create_network_def example_data_def)

lemma ex_sorted: "sorted_markers G_ex = [(0, ms_ex)]"
  by (simp add: G_ex_def ms_ex_def sorted_markers_def collect_markers_def append_marker_def)

lemma ex_rn:
  "row_neighbors G_ex (Marker 0 False 0) = [Row 0, Row 1]"
  "row_neighbors G_ex (Marker 0 False 20000) = [Row 2, Row 3]"
  "row_neighbors G_ex (Marker 0 False 40000) = []"
  by (simp_all add: G_ex_def row_neighbors_def neighbors_def adj_of_def)

lemma ex_ew:
  "edge_weight G_ex (Marker 0 False 0) (Row 0) = 1"
  "edge_weight G_ex (Marker 0 False 20000) (Row 2) = 1"
  by (simp_all add: G_ex_def edge_weight_def adj_of_def)

lemma ex_gp0:
  "fold (\<lambda>n gp. add_node gp n None) (filter is_row (map fst (nodes G_ex))) empty_graph = g0_ex"
  by (simp add: G_ex_def g0_ex_def graph_defs)

lemma ex_step0: "marker_step G_ex ms_ex 0 g0_ex = gp1_ex"
proof -
  have "row_neighbors G_ex (fst (ms_ex ! 0)) = [Row 0, Row 1]"
    by (simp add: ms_ex_def ex_rn)
  from marker_step_eval(2)[OF this] show ?thesis
    by (simp add: ms_ex_def ex_rn ex_ew bridge_def ring_def g0_ex_def gp1_ex_def graph_defs upt_rec)
qed

lemma ex_step1: "marker_step G_ex ms_ex 1 gp1_ex = R_ex"
proof -
  have "row_neighbors G_ex (fst (ms_ex ! 1)) = [Row 2, Row 3]"
    by (simp add: ms_ex_def ex_rn)
  from marker_step_eval(2)[OF this] show ?thesis
    by (simp add: ms_ex_def ex_rn ex_ew bridge_def ring_def R_ex_def gp1_ex_def graph_defs upt_rec)
qed

lemma ex_step2: "marker_step G_ex ms_ex 2 R_ex = R_ex"
  by (rule marker_step_eval(1)) (simp add: ms_ex_def ex_rn)

lemma example_reduced: "prune_markers_minimal G_ex = R_ex"
proof -
  have idx: "[0..<length ms_ex] = [0, 1, 2]"
    by (simp add: ms_ex_def upt_rec)
  have "prune_dim G_ex ms_ex g0_ex = R_ex"
    unfolding prune_dim_def idx using ex_step0 ex_step1 ex_step2 by simp
  then show ?thesis
    by (simp add: prune_markers_minimal_def ex_sorted ex_gp0 Let_def)
qed

lemma example_net: "construct_net example_data [1] 2 = Inr R_ex"
  by (simp add: construct_net_def example_expanded example_reduced)

section \<open>Graph operations\<close>

lemma has_node_iff: "has_node g n \<longleftrightarrow> n \<in> set (map fst (nodes g))"
  by (simp add: has_node_def map_of_eq_None_iff)

lemma has_edge_iff: "has_edge g u v \<longleftrightarrow> weight_of g u v \<noteq> None"
  by (simp add: has_edge_def weight_of_def)

lemma adj_of_add_node [simp]: "adj_of (add_node g n a) x = adj_of g x"
  by (auto simp: add_node_def adj_of_def map_add_def split: option.splits)

lemma keys_add_node:
  "map fst (nodes (add_node g n a)) =
     (if has_node g n then map fst (nodes g) else map fst (nodes g) @ [n])"
  by (auto simp: add_node_def has_node_iff AList.update_keys split: option.splits)

lemma nodes_set_nbr [simp]: "nodes (set_nbr g u v w) = nodes g"
  by (simp add: set_nbr_def)

lemma adj_of_set_nbr:
  "adj_of (set_nbr g u v w) x = (if x = u then AList.update v w (adj_of g u) else adj_of g x)"
  by (simp add: set_nbr_def adj_of_def AList.update_conv')

lemma weight_of_set_nbr:
  "weight_of (set_nbr g u v w) a b = (if a = u \<and> b = v then Some w else weight_of g a b)"
  by (simp add: weight_of_def adj_of_set_nbr AList.update_conv')

lemma nodes_set_weight [simp]: "nodes (set_weight g u v w) = nodes g"
  by (simp add: set_weight_def)

lemma joins_swap: "joins u v b a = joins u v a b"
  unfolding joins_def by blast

lemma weight_of_set_weight_joins:
  "joins u v a b \<Longrightarrow> weight_of (set_weight g u v w) a b = Some w"
  unfolding joins_def set_weight_def
  by (elim disjE conjE; hypsubst_thin; simp add: weight_of_set_nbr)

lemma weight_of_set_weight_other:
  "\<not> joins u v a b \<Longrightarrow> weight_of (set_weight g u v w) a b = weight_of g a b"
proof -
  assume "\<not> joins u v a b"
  then have 1: "\<not> (a = u \<and> b = v)" and 2: "\<not> (a = v \<and> b = u)"
    unfolding joins_def by blast+
  show ?thesis
    unfolding set_weight_def weight_of_set_nbr using 1 2 by (simp only: if_False)
qed

lemma weight_of_set_weight:
  "weight_of (set_weight g u v w) a b = (if joins u v a b then Some w else weight_of g a b)"
  by (simp add: weight_of_set_weight_joins weight_of_set_weight_other)

lemma weight_of_add_node [simp]: "weight_of (add_node g n a) x y = weight_of g x y"
  by (simp add: weight_of_def)

lemma weight_of_add_edge:
  "weight_of (add_edge g u v w) a b = (if joins u v a b then Some w else weight_of g a b)"
  by (simp add: add_edge_def weight_of_set_weight)

lemma keys_add_edge:
  "map fst (nodes (add_edge g u v w)) =
     map fst (nodes g) @ (if has_node g u then [] else [u])
       @ (if has_node g v \<or> v = u then [] else [v])"
  by (auto simp: add_edge_def keys_add_node has_node_iff)

lemma weight_of_accumulate_edge:
  "weight_of (accumulate_edge g u v w) a b =
     (if joins u v a b
      then Some (case weight_of g u v of None \<Rightarrow> w | Some w0 \<Rightarrow> w0 + w)
      else weight_of g a b)"
  by (cases "weight_of g u v")
     (simp_all add: accumulate_edge_def weight_of_set_weight weight_of_add_edge
        weight_of_def[symmetric])

lemma keys_accumulate_edge:
  "has_node g u \<Longrightarrow> has_node g v \<Longrightarrow> map fst (nodes (accumulate_edge g u v w)) = map fst (nodes g)"
  by (auto simp: accumulate_edge_def keys_add_edge split: option.splits)

lemma symmetric_accumulate_edge: "symmetric g \<Longrightarrow> symmetric (accumulate_edge g u v w)"
  by (simp add: symmetric_def weight_of_accumulate_edge joins_swap)

lemma symmetric_add_edge: "symmetric g \<Longrightarrow> symmetric (add_edge g u v w)"
  by (simp add: symmetric_def weight_of_add_edge joins_swap)

lemma symmetric_add_node: "symmetric g \<Longrightarrow> symmetric (add_node g n a)"
  by (simp add: symmetric_def)

lemma symmetric_empty: "symmetric empty_graph"
  by (simp add: symmetric_def weight_of_def adj_of_def empty_graph_def)

lemma weight_of_joins: "symmetric g \<Longrightarrow> joins u v a b \<Longrightarrow> weight_of g a b = weight_of g u v"
  unfolding joins_def symmetric_def by metis

lemma wt_accumulate_edge:
  "symmetric g \<Longrightarrow>
   wt (accumulate_edge g u v w) a b = wt g a b + (if joins u v a b then w else 0)"
proof (cases "joins u v a b")
  case True
  assume "symmetric g"
  from weight_of_joins[OF this True] True show ?thesis
    by (simp add: wt_def weight_of_accumulate_edge split: option.splits)
next
  case False
  then show ?thesis by (simp add: wt_def weight_of_accumulate_edge)
qed

lemma accumulate_all_Nil [simp]: "accumulate_all [] g = g"
  by (simp add: accumulate_all_def)

lemma accumulate_all_Cons [simp]:
  "accumulate_all ((u, v, w) # cs) g = accumulate_all cs (accumulate_edge g u v w)"
  by (simp add: accumulate_all_def)

lemma accumulate_all_append [simp]:
  "accumulate_all (cs @ ds) g = accumulate_all ds (accumulate_all cs g)"
  by (simp add: accumulate_all_def)

lemma symmetric_accumulate_all: "symmetric g \<Longrightarrow> symmetric (accumulate_all cs g)"
  by (induction cs arbitrary: g) (auto simp: symmetric_accumulate_edge)

lemma wt_accumulate_all:
  "symmetric g \<Longrightarrow>
   wt (accumulate_all cs g) a b =
     wt g a b + (\<Sum>(u, v, w)\<leftarrow>cs. if joins u v a b then w else 0)"
proof (induction cs arbitrary: g)
  case Nil
  then show ?case by simp
next
  case (Cons c cs)
  obtain u v w where c: "c = (u, v, w)" by (cases c)
  show ?case
    using Cons.IH[OF symmetric_accumulate_edge[OF Cons.prems, of u v w]]
    by (simp add: c wt_accumulate_edge[OF Cons.prems])
qed


lemma ring_eq: "ring nbrs w gp = accumulate_all (ring_edges nbrs w) gp"
  by (simp add: ring_def accumulate_all_def ring_edges_def fold_map comp_def)

lemma bridge_eq:
  "bridge g markers i nbrs w gp = accumulate_all (bridge_edges g markers i nbrs w) gp"
  by (auto simp: bridge_def bridge_edges_def Let_def)

lemma marker_step_eq: "marker_step g markers i gp = accumulate_all (marker_edges g markers i) gp"
  by (simp add: marker_step_def marker_edges_def Let_def ring_eq bridge_eq)

lemma fold_marker_step:
  "fold (marker_step g markers) is gp = accumulate_all (concat (map (marker_edges g markers) is)) gp"
  by (induction "is" arbitrary: gp) (simp_all add: marker_step_eq)

lemma prune_dim_eq: "prune_dim g markers gp = accumulate_all (dim_edges g markers) gp"
  by (simp add: prune_dim_def dim_edges_def fold_marker_step)

lemma fold_prune_dim:
  "fold (\<lambda>(d, markers) gp. prune_dim g markers gp) dms gp =
     accumulate_all (concat (map (\<lambda>(d, markers). dim_edges g markers) dms)) gp"
  by (induction dms arbitrary: gp) (auto simp: prune_dim_eq)

lemma prune_eq: "prune_markers_minimal g = accumulate_all (all_edges g) (pruned_start g)"
  by (simp add: prune_markers_minimal_def all_edges_def pruned_start_def fold_prune_dim Let_def)

lemma has_edge_accumulate_edge:
  "has_edge (accumulate_edge g u v w) a b \<longleftrightarrow> joins u v a b \<or> has_edge g a b"
  by (simp add: has_edge_iff weight_of_accumulate_edge)

lemma has_edge_accumulate_all_mono:
  "has_edge g a b \<Longrightarrow> has_edge (accumulate_all cs g) a b"
  by (induction cs arbitrary: g) (auto simp: has_edge_accumulate_edge)

lemma has_edge_accumulate_all_mem:
  "(u, v, w) \<in> set cs \<Longrightarrow> has_edge (accumulate_all cs g) u v"
proof (induction cs arbitrary: g)
  case Nil
  then show ?case by simp
next
  case (Cons c cs)
  obtain u' v' w' where c: "c = (u', v', w')" by (cases c)
  show ?case
  proof (cases "u' = u \<and> v' = v")
    case True
    then have "has_edge (accumulate_edge g u' v' w') u v"
      by (simp add: has_edge_accumulate_edge joins_def)
    then show ?thesis
      by (simp add: c has_edge_accumulate_all_mono)
  next
    case False
    then have "(u, v, w) \<in> set cs" using Cons.prems by (auto simp: c)
    then show ?thesis using Cons.IH by (simp add: c)
  qed
qed

lemma sum_ring_edges:
  "(\<Sum>(u, v, w')\<leftarrow>ring_edges N w. if joins u v a b then w' else 0) =
     w * of_nat (length (filter (\<lambda>k. joins (N ! k) (N ! ((k + 1) mod length N)) a b) [0..<length N]))"
proof -
  have "(\<Sum>k\<leftarrow>ks. if P k then w else 0) = w * of_nat (length (filter P ks))" for P and ks :: "nat list"
    by (induction ks) (simp_all add: algebra_simps)
  then show ?thesis
    by (simp add: ring_edges_def comp_def)
qed

lemma wt_ring:
  "symmetric gp \<Longrightarrow>
   wt (ring N w gp) a b =
     wt gp a b
     + w * of_nat (length (filter (\<lambda>k. joins (N ! k) (N ! ((k + 1) mod length N)) a b) [0..<length N]))"
  by (simp add: ring_eq wt_accumulate_all sum_ring_edges)

lemma has_edge_ring:
  "k < length N \<Longrightarrow> has_edge (ring N w gp) (N ! k) (N ! ((k + 1) mod length N))"
  unfolding ring_eq
  by (rule has_edge_accumulate_all_mem[where w = w]) (auto simp: ring_edges_def)

lemma wt_ring_single: "symmetric gp \<Longrightarrow> wt (ring [r] w gp) r r = wt gp r r + w"
  by (simp add: wt_ring joins_def)

lemma wt_ring_pair:
  "symmetric gp \<Longrightarrow> r \<noteq> s \<Longrightarrow> wt (ring [r, s] w gp) r s = wt gp r s + 2 * w"
proof -
  assume sym: "symmetric gp" and "r \<noteq> s"
  have "[0..<length [r, s]] = [0, 1]" by (simp add: upt_rec)
  then have "length (filter (\<lambda>k. joins ([r, s] ! k) ([r, s] ! ((k + 1) mod length [r, s])) r s)
                [0..<length [r, s]]) = 2"
    by (simp add: joins_def)
  then show ?thesis using wt_ring[OF sym, of "[r, s]" w r s] by simp
qed

section \<open>The builder on a positive window\<close>

lemma np_max_eq: "xs \<noteq> [] \<Longrightarrow> np_max xs = Inr (Max (set xs))"
  by (cases xs) (simp_all add: Max.set_eq_fold[symmetric])

lemma np_min_eq: "xs \<noteq> [] \<Longrightarrow> np_min xs = Inr (Min (set xs))"
  by (cases xs) (simp_all add: Min.set_eq_fold[symmetric])

lemma column_nonempty: "rows data \<noteq> [] \<Longrightarrow> column data d \<noteq> []"
  by (simp add: column_def)

lemma py_int_floor: "0 \<le> x \<Longrightarrow> py_int x = \<lfloor>x\<rfloor>"
  by (simp add: py_int_def)

lemma py_int_nonneg: "0 \<le> x \<Longrightarrow> 0 \<le> py_int x"
  by (simp add: py_int_def)

lemma py_int_mono: "0 \<le> x \<Longrightarrow> x \<le> y \<Longrightarrow> py_int x \<le> py_int y"
  by (simp add: py_int_def floor_mono)

lemma length_marker_values: "length (marker_values ws mn n) = nat (n + 1)"
  by (simp add: marker_values_def)

lemma nth_marker_values:
  "0 \<le> k \<Longrightarrow> k \<le> n \<Longrightarrow>
   marker_values ws mn n ! nat k = fadd (fmul ws (of_int k)) mn"
  by (simp add: marker_values_def)

lemma hd_marker_values:
  "0 \<le> n \<Longrightarrow>
   marker_values ws mn n
   = marker_values ws mn n ! 0 # map (\<lambda>i. fadd (fmul ws (of_int i)) mn) [1..n]"
  by (simp add: marker_values_def upto_rec1)

lemma py_index_ok: "0 \<le> k \<Longrightarrow> k < int (length xs) \<Longrightarrow> py_index xs k = Inr (xs ! nat k)"
  by (simp add: py_index_def)

lemma min_of_le: "r < length (rows data) \<Longrightarrow> min_of data d \<le> rows data ! r ! d"
  by (simp add: min_of_def column_def)

lemma le_max_of: "r < length (rows data) \<Longrightarrow> rows data ! r ! d \<le> max_of data d"
  by (simp add: max_of_def column_def)

lemma bin_index_bounds:
  assumes "0 < ws" "r < length (rows data)"
  shows "0 \<le> bin_index data ws d r" "bin_index data ws d r \<le> n_of data ws d - 1"
    "bin_index data ws d r = \<lfloor>fdiv (fsub (rows data ! r ! d) (min_of data d)) ws\<rfloor>"
proof -
  let ?v = "rows data ! r ! d"
  have 1: "0 \<le> fdiv (fsub ?v (min_of data d)) ws"
    by (rule fdiv_nonneg[OF fsub_nonneg[OF min_of_le[OF assms(2)]] assms(1)])
  have 2: "fdiv (fsub ?v (min_of data d)) ws \<le> fdiv (fsub (max_of data d) (min_of data d)) ws"
    by (rule fdiv_mono[OF fsub_mono[OF le_max_of[OF assms(2)]] assms(1)])
  show "0 \<le> bin_index data ws d r" using 1 by (simp add: bin_index_def py_int_nonneg)
  show "bin_index data ws d r \<le> n_of data ws d - 1"
    using py_int_mono[OF 1 2] by (simp add: bin_index_def n_of_def)
  show "bin_index data ws d r = \<lfloor>fdiv (fsub ?v (min_of data d)) ws\<rfloor>"
    using 1 by (simp add: bin_index_def py_int_floor)
qed

lemma n_of_pos: "0 < ws \<Longrightarrow> rows data \<noteq> [] \<Longrightarrow> 1 \<le> n_of data ws d"
proof -
  assume ws: "0 < ws" and ne: "rows data \<noteq> []"
  then have "0 < length (rows data)" by simp
  from min_of_le[OF this, of d] le_max_of[OF this, of d]
  have "min_of data d \<le> max_of data d" by simp
  then have "0 \<le> fdiv (fsub (max_of data d) (min_of data d)) ws"
    using ws by (intro fdiv_nonneg fsub_nonneg)
  then show ?thesis by (simp add: n_of_def py_int_nonneg)
qed

lemma bin_index_max:
  assumes "0 < ws" "r < length (rows data)" "rows data ! r ! d = max_of data d"
  shows "bin_index data ws d r = n_of data ws d - 1"
  using assms by (simp add: bin_index_def n_of_def)

lemma assign_rows_fold:
  assumes "\<And>i p. (i, p) \<in> set es \<Longrightarrow>
             0 \<le> py_int (fdiv (fsub (p ! d) mn) ws) \<and> py_int (fdiv (fsub (p ! d) mn) ws) \<le> n"
  shows "assign_rows d w ws mn (marker_values ws mn n) es g
         = Inr (fold (assign_step d w ws mn) es g)"
  using assms
proof (induction es arbitrary: g)
  case Nil
  then show ?case by simp
next
  case (Cons e es)
  obtain i p where e: "e = (i, p)" by (cases e)
  let ?k = "py_int (fdiv (fsub (p ! d) mn) ws)"
  have k: "0 \<le> ?k" "?k \<le> n" using Cons.prems[of i p] by (simp_all add: e)
  then have "py_index (marker_values ws mn n) ?k = Inr (fadd (fmul ws (of_int ?k)) mn)"
    by (simp add: py_index_ok length_marker_values nth_marker_values)
  moreover have "assign_step d w ws mn (i, p) g
      = add_edge g (Row i) (marker_name d (fadd (fmul ws (of_int ?k)) mn)) w"
    by (simp add: assign_step_def)
  moreover have "assign_rows d w ws mn (marker_values ws mn n) es g'
      = Inr (fold (assign_step d w ws mn) es g')" for g'
    by (rule Cons.IH) (use Cons.prems in auto)
  ultimately show ?case
    by (simp add: e)
qed

lemma in_set_enumerate_rows:
  "(i, p) \<in> set (enumerate 0 xs) \<Longrightarrow> i < length xs \<and> p = xs ! i"
proof -
  assume "(i, p) \<in> set (enumerate 0 xs)"
  then have "fst (i, p) < length xs + 0 \<and> xs ! (fst (i, p) - 0) = snd (i, p)"
    unfolding in_set_enumerate_eq by blast
  then show ?thesis by simp
qed

lemma dim_step_valid:
  assumes "0 < ws" "rows data \<noteq> []" "d < length weights"
  shows "dim_step data weights ws d g = Inr (dim_graph data weights ws d g)"
proof -
  have mx: "np_max (column data d) = Inr (max_of data d)"
    by (simp add: np_max_eq column_nonempty assms max_of_def)
  have mn: "np_min (column data d) = Inr (min_of data d)"
    by (simp add: np_min_eq column_nonempty assms min_of_def)
  have cnt: "marker_count (max_of data d) (min_of data d) ws = Inr (n_of data ws d)"
    using assms by (simp add: marker_count_def n_of_def)
  have n1: "1 \<le> n_of data ws d" using n_of_pos assms by simp
  have mv: "marker_values ws (min_of data d) (n_of data ws d)
       = marker_values ws (min_of data d) (n_of data ws d) ! 0
         # map (\<lambda>i. fadd (fmul ws (of_int i)) (min_of data d)) [1..n_of data ws d]"
    by (rule hd_marker_values) (use n1 in simp)
  have "assign_rows d (weights ! d) ws (min_of data d)
          (marker_values ws (min_of data d) (n_of data ws d)) (enumerate 0 (rows data)) g'
        = Inr (fold (assign_step d (weights ! d) ws (min_of data d)) (enumerate 0 (rows data)) g')"
    for g'
  proof (rule assign_rows_fold)
    fix i p assume "(i, p) \<in> set (enumerate 0 (rows data))"
    from in_set_enumerate_rows[OF this]
    have i: "i < length (rows data)" and p: "p = rows data ! i"
      by simp_all
    from bin_index_bounds(1,2)[OF assms(1) i, of d]
    show "0 \<le> py_int (fdiv (fsub (p ! d) (min_of data d)) ws)
          \<and> py_int (fdiv (fsub (p ! d) (min_of data d)) ws) \<le> n_of data ws d"
      by (simp add: bin_index_def p)
  qed
  then show ?thesis
    using dim_step_eval[OF assms(3) mx mn cnt mv]
    by (simp add: dim_graph_def mvals_def mv[symmetric])
qed

lemma dims_loop_valid:
  assumes "\<And>d g. d \<in> set ds \<Longrightarrow> f d g = Inr (h d g)"
  shows "dims_loop f ds g = Inr (fold h ds g)"
  using assms by (induction ds arbitrary: g) simp_all

lemma create_network_valid:
  assumes "0 < ws" "rows data \<noteq> []" "ncols data \<le> length weights"
  shows "create_network data weights ws
         = Inr (fold (dim_graph data weights ws) [0..<ncols data] (rows_added data))"
proof -
  have "dim_step data weights ws d g = Inr (dim_graph data weights ws d g)"
    if "d \<in> set [0..<ncols data]" for d g
  proof (rule dim_step_valid[OF assms(1,2)])
    show "d < length weights" using that assms(3) by simp
  qed
  from dims_loop_valid[of "[0..<ncols data]" "dim_step data weights ws" "dim_graph data weights ws", OF this]
  show ?thesis
    by (simp add: create_network_def rows_added_def)
qed

section \<open>The edges of the expanded graph\<close>

lemma weight_of_fold_steps:
  assumes "\<And>x g a b. weight_of (f x g) a b = (if J x a b then Some w else weight_of g a b)"
  shows "weight_of (fold f xs g) a b
         = (if \<exists>x\<in>set xs. J x a b then Some w else weight_of g a b)"
proof (induction xs arbitrary: g)
  case Nil
  then show ?case by simp
next
  case (Cons x xs)
  show ?case
  proof (cases "\<exists>y\<in>set xs. J y a b")
    case True
    then show ?thesis using Cons.IH[of "f x g"] by simp
  next
    case False
    then show ?thesis using Cons.IH[of "f x g"] by (simp add: assms)
  qed
qed

lemma weight_of_chain_step:
  "weight_of (chain_step d w mv i g) a b
   = (if joins (marker_name d (mv ! (i - 1))) (marker_name d (mv ! i)) a b
      then Some w else weight_of g a b)"
  by (simp add: chain_step_def weight_of_add_edge)

lemma weight_of_assign_step:
  "weight_of (assign_step d w ws mn ip g) a b
   = (if joins (Row (fst ip))
           (marker_name d (fadd (fmul ws (of_int (py_int (fdiv (fsub (snd ip ! d) mn) ws)))) mn)) a b
      then Some w else weight_of g a b)"
  by (simp add: assign_step_def weight_of_add_edge)

lemma ex_enumerate:
  "(\<exists>ip\<in>set (enumerate 0 xs). P (fst ip) (snd ip)) \<longleftrightarrow> (\<exists>r<length xs. P r (xs ! r))"
proof
  assume "\<exists>ip\<in>set (enumerate 0 xs). P (fst ip) (snd ip)"
  then obtain i p where ip: "(i, p) \<in> set (enumerate 0 xs)" and P: "P i p" by force
  from in_set_enumerate_rows[OF ip] P show "\<exists>r<length xs. P r (xs ! r)" by blast
next
  assume "\<exists>r<length xs. P r (xs ! r)"
  then obtain r where r: "r < length xs" and P: "P r (xs ! r)" by blast
  have "(r, xs ! r) \<in> set (enumerate 0 xs)"
    unfolding in_set_enumerate_eq using r by simp
  then show "\<exists>ip\<in>set (enumerate 0 xs). P (fst ip) (snd ip)" using P by force
qed

lemma if_or: "(if A then x else if B then x else y) = (if A \<or> B then x else y)"
  by simp

lemma weight_of_dim_graph:
  "weight_of (dim_graph data weights ws d g) a b
   = (if dim_pair data ws d a b then Some (weights ! d) else weight_of g a b)"
proof -
  let ?J1 = "\<lambda>ip a b. joins (Row (fst ip))
      (marker_name d (fadd (fmul ws (of_int (py_int (fdiv (fsub (snd ip ! d) (min_of data d)) ws)))) (min_of data d))) a b"
  let ?J2 = "\<lambda>i a b. joins (marker_name d (mvals data ws d ! (i - 1)))
      (marker_name d (mvals data ws d ! i)) a b"
  have 1: "(\<exists>ip\<in>set (enumerate 0 (rows data)). ?J1 ip a b)
        \<longleftrightarrow> (\<exists>r<length (rows data). joins (Row r) (home data ws d r) a b)"
    using ex_enumerate[of "rows data" "\<lambda>i p. joins (Row i)
      (marker_name d (fadd (fmul ws (of_int (py_int (fdiv (fsub (p ! d) (min_of data d)) ws)))) (min_of data d))) a b"]
    by (simp add: home_def bin_index_def)
  show ?thesis
    unfolding dim_graph_def
    by (simp only: weight_of_fold_steps[where J = ?J1, OF weight_of_assign_step]
        weight_of_fold_steps[where J = ?J2, OF weight_of_chain_step] 1
        weight_of_add_node dim_pair_def)
      (rule if_or)
qed


lemma create_network_expanded:
  "valid_input data weights ws \<Longrightarrow> create_network data weights ws = Inr (expanded data weights ws)"
  by (simp add: valid_input_def expanded_def create_network_valid)

lemma node_dim_marker_name [simp]: "node_dim (marker_name d v) = Some d"
  by (simp add: marker_name_def)

lemma is_row_marker_name [simp]: "\<not> is_row (marker_name d v)"
  by (simp add: marker_name_def)

lemma marker_name_neq_Row [simp]: "marker_name d v \<noteq> Row r" "Row r \<noteq> marker_name d v"
  by (simp_all add: marker_name_def)

lemma home_dim [simp]: "node_dim (home data ws d r) = Some d"
  by (simp add: home_def)

lemma dim_pair_swap: "dim_pair data ws d b a = dim_pair data ws d a b"
  by (simp add: dim_pair_def joins_swap)

lemma joins_dims:
  "joins u v a b \<Longrightarrow> (node_dim a = node_dim u \<and> node_dim b = node_dim v)
     \<or> (node_dim a = node_dim v \<and> node_dim b = node_dim u)"
  unfolding joins_def by blast

lemma dim_pair_dims:
  assumes "dim_pair data ws d a b"
  shows "(node_dim a = Some d \<or> node_dim b = Some d)
         \<and> (node_dim a = None \<or> node_dim a = Some d)
         \<and> (node_dim b = None \<or> node_dim b = Some d)"
proof -
  from assms consider
    (row) r where "joins (Row r) (home data ws d r) a b"
  | (chain) i where "joins (marker_name d (mvals data ws d ! (i - 1)))
                       (marker_name d (mvals data ws d ! i)) a b"
    unfolding dim_pair_def by blast
  then show ?thesis
  proof cases
    case row
    from joins_dims[OF this] show ?thesis by auto
  next
    case chain
    from joins_dims[OF this] show ?thesis by auto
  qed
qed

lemma dim_pair_unique: "dim_pair data ws d a b \<Longrightarrow> dim_pair data ws d' a b \<Longrightarrow> d' = d"
  using dim_pair_dims[of data ws d a b] dim_pair_dims[of data ws d' a b] by auto

lemma weight_of_rows_fold:
  "weight_of (fold (\<lambda>i g. add_node g (f i) None) xs g) a b = weight_of g a b"
  by (induction xs arbitrary: g) simp_all

lemma weight_of_empty [simp]: "weight_of empty_graph a b = None"
  by (simp add: weight_of_def adj_of_def empty_graph_def)

lemma weight_of_rows_added [simp]: "weight_of (rows_added data) a b = None"
  by (simp add: rows_added_def weight_of_rows_fold)

lemma weight_of_dims_some:
  "d \<in> set ds \<Longrightarrow> dim_pair data ws d a b \<Longrightarrow>
   weight_of (fold (dim_graph data weights ws) ds g) a b = Some (weights ! d)"
proof (induction ds rule: rev_induct)
  case Nil
  then show ?case by simp
next
  case (snoc x ds)
  show ?case
  proof (cases "dim_pair data ws x a b")
    case True
    have "x = d" by (rule dim_pair_unique[OF snoc.prems(2) True])
    then show ?thesis using True by (simp add: weight_of_dim_graph)
  next
    case False
    with snoc.prems have "d \<in> set ds" by auto
    from snoc.IH[OF this snoc.prems(2)] False show ?thesis
      by (simp add: weight_of_dim_graph)
  qed
qed

lemma weight_of_dims_none:
  "(\<And>d. d \<in> set ds \<Longrightarrow> \<not> dim_pair data ws d a b) \<Longrightarrow>
   weight_of (fold (dim_graph data weights ws) ds g) a b = weight_of g a b"
  by (induction ds rule: rev_induct) (simp_all add: weight_of_dim_graph)

lemma weight_of_expanded_some:
  "d < ncols data \<Longrightarrow> dim_pair data ws d a b \<Longrightarrow>
   weight_of (expanded data weights ws) a b = Some (weights ! d)"
  unfolding expanded_def by (rule weight_of_dims_some) simp_all

lemma weight_of_expanded_none:
  "(\<And>d. d < ncols data \<Longrightarrow> \<not> dim_pair data ws d a b) \<Longrightarrow>
   weight_of (expanded data weights ws) a b = None"
  unfolding expanded_def by (subst weight_of_dims_none) simp_all

lemma weight_of_expanded_cases:
  assumes "weight_of (expanded data weights ws) a b = Some w"
  obtains d where "d < ncols data" "dim_pair data ws d a b" "w = weights ! d"
proof (cases "\<exists>d<ncols data. dim_pair data ws d a b")
  case True
  then obtain d where d: "d < ncols data" "dim_pair data ws d a b" by blast
  from weight_of_expanded_some[OF this, of weights] assms have "w = weights ! d" by simp
  with d show ?thesis by (rule that)
next
  case False
  then have "weight_of (expanded data weights ws) a b = None"
    by (intro weight_of_expanded_none) blast
  with assms show ?thesis by simp
qed

lemma symmetric_expanded: "symmetric (expanded data weights ws)"
  unfolding symmetric_def
proof (intro allI)
  fix u v
  show "weight_of (expanded data weights ws) u v = weight_of (expanded data weights ws) v u"
  proof (cases "\<exists>d<ncols data. dim_pair data ws d u v")
    case True
    then obtain d where d: "d < ncols data" "dim_pair data ws d u v" by blast
    then have "dim_pair data ws d v u" by (simp add: dim_pair_swap)
    with d show ?thesis by (simp add: weight_of_expanded_some)
  next
    case False
    then have "\<And>d. d < ncols data \<Longrightarrow> \<not> dim_pair data ws d v u"
      by (simp add: dim_pair_swap)
    with False show ?thesis by (simp add: weight_of_expanded_none)
  qed
qed

section \<open>The nodes of the expanded and of the reduced graph\<close>

lemma nodes_add_node: "nodes (add_node g n a) = ins_node (nodes g) n a"
  by (simp add: add_node_def ins_node_def has_node_def split: option.splits)

lemma keys_ins_node:
  "map fst (ins_node ns n a) = (if n \<in> set (map fst ns) then map fst ns else map fst ns @ [n])"
  by (auto simp: ins_node_def AList.update_keys map_of_eq_None_iff split: option.splits)

lemma has_node_add_node: "has_node (add_node g n a) m \<longleftrightarrow> m = n \<or> has_node g m"
  by (auto simp: has_node_iff keys_add_node)

lemma has_node_add_edge: "has_node (add_edge g u v w) m \<longleftrightarrow> m = u \<or> m = v \<or> has_node g m"
  by (auto simp: has_node_iff keys_add_edge)

lemma nodes_add_edge_same:
  "has_node g u \<Longrightarrow> has_node g v \<Longrightarrow> nodes (add_edge g u v w) = nodes g"
  by (simp add: add_edge_def add_node_def has_node_def)

lemma nodes_rows_upto:
  "nodes (fold (\<lambda>i g. add_node g (Row i) None) [0..<n] empty_graph)
   = map (\<lambda>i. (Row i, None)) [0..<n]"
proof (induction n)
  case 0
  then show ?case by (simp add: empty_graph_def)
next
  case (Suc n)
  have "map_of (map (\<lambda>i. (Row i, None :: (nat \<times> rat) option)) [0..<n]) (Row n) = None"
    by (simp add: map_of_eq_None_iff image_iff)
  then show ?case
    using Suc by (simp add: nodes_add_node ins_node_def)
qed

lemma nodes_rows_added:
  "nodes (rows_added data) = map (\<lambda>i. (Row i, None)) [0..<length (rows data)]"
  by (simp add: rows_added_def nodes_rows_upto)

lemma has_node_cong: "nodes g = nodes g' \<Longrightarrow> has_node g n = has_node g' n"
  by (simp add: has_node_def)

lemma key_in_fold_marker_ins:
  "n \<in> fst ` set ns \<Longrightarrow> n \<in> fst ` set (fold (marker_ins d) vs ns)"
proof (induction vs arbitrary: ns)
  case Nil
  then show ?case by simp
next
  case (Cons v vs)
  have "n \<in> set (map fst (marker_ins d v ns))"
    using Cons.prems by (simp add: marker_ins_def keys_ins_node)
  then show ?case using Cons.IH[of "marker_ins d v ns"] by simp
qed

lemma name_in_fold_marker_ins:
  "v \<in> set vs \<Longrightarrow> marker_name d v \<in> fst ` set (fold (marker_ins d) vs ns)"
proof (induction vs arbitrary: ns)
  case Nil
  then show ?case by simp
next
  case (Cons x vs)
  show ?case
  proof (cases "v = x")
    case True
    have "marker_name d v \<in> set (map fst (marker_ins d x ns))"
      by (simp add: True marker_ins_def keys_ins_node)
    then have "marker_name d v \<in> fst ` set (marker_ins d x ns)" by simp
    from key_in_fold_marker_ins[OF this] show ?thesis by simp
  next
    case False
    then have "v \<in> set vs" using Cons.prems by simp
    from Cons.IH[OF this] show ?thesis by simp
  qed
qed

lemma nodes_chain:
  "Suc j \<le> length mv \<Longrightarrow>
   nodes (fold (chain_step d w mv) [1..<Suc j]
            (add_node g (marker_name d (mv ! 0)) (Some (d, mv ! 0))))
   = fold (marker_ins d) (take (Suc j) mv) (nodes g)"
proof (induction j)
  case 0
  then have "take (Suc 0) mv = [mv ! 0]"
    by (cases mv) simp_all
  then show ?case by (simp add: nodes_add_node marker_ins_def)
next
  case (Suc j)
  let ?prev = "fold (chain_step d w mv) [1..<Suc j]
            (add_node g (marker_name d (mv ! 0)) (Some (d, mv ! 0)))"
  let ?new = "add_node ?prev (marker_name d (mv ! Suc j)) (Some (d, mv ! Suc j))"
  have prev: "nodes ?prev = fold (marker_ins d) (take (Suc j) mv) (nodes g)"
    using Suc by simp
  have "take (Suc j) mv ! j = mv ! j" by simp
  moreover have "j < length (take (Suc j) mv)" using Suc.prems by simp
  ultimately have mem: "mv ! j \<in> set (take (Suc j) mv)"
    by (metis nth_mem)
  have "has_node ?prev (marker_name d (mv ! j))"
    unfolding has_node_iff prev set_map by (rule name_in_fold_marker_ins[OF mem])
  then have 1: "has_node ?new (marker_name d (mv ! j))"
    by (simp add: has_node_add_node)
  have 2: "has_node ?new (marker_name d (mv ! Suc j))"
    by (simp add: has_node_add_node)
  have "chain_step d w mv (Suc j) ?prev
        = add_edge ?new (marker_name d (mv ! j)) (marker_name d (mv ! Suc j)) w"
    by (simp only: chain_step_def diff_Suc_1)
  then have "nodes (chain_step d w mv (Suc j) ?prev) = nodes ?new"
    by (simp only: nodes_add_edge_same[OF 1 2])
  also have "\<dots> = marker_ins d (mv ! Suc j) (nodes ?prev)"
    by (simp add: nodes_add_node marker_ins_def)
  also have "\<dots> = fold (marker_ins d) (take (Suc (Suc j)) mv) (nodes g)"
    unfolding prev using Suc.prems by (simp add: take_Suc_conv_app_nth[of "Suc j"])
  finally show ?case by simp
qed

lemma nodes_assign:
  "(\<And>ip. ip \<in> set es \<Longrightarrow> has_node g (Row (fst ip)) \<and>
      has_node g (marker_name d (fadd (fmul ws (of_int (py_int (fdiv (fsub (snd ip ! d) mn) ws)))) mn))) \<Longrightarrow>
   nodes (fold (assign_step d w ws mn) es g) = nodes g"
proof (induction es arbitrary: g)
  case Nil
  then show ?case by simp
next
  case (Cons e es)
  have e: "nodes (assign_step d w ws mn e g) = nodes g"
    unfolding assign_step_def using Cons.prems[of e] by (simp add: nodes_add_edge_same)
  have "nodes (fold (assign_step d w ws mn) es (assign_step d w ws mn e g))
        = nodes (assign_step d w ws mn e g)"
  proof (rule Cons.IH)
    fix ip assume "ip \<in> set es"
    then show "has_node (assign_step d w ws mn e g) (Row (fst ip)) \<and>
      has_node (assign_step d w ws mn e g)
        (marker_name d (fadd (fmul ws (of_int (py_int (fdiv (fsub (snd ip ! d) mn) ws)))) mn))"
      using Cons.prems[of ip] has_node_cong[OF e] by simp
  qed
  then show ?case using e by simp
qed


lemma length_mvals: "length (mvals data ws d) = nat (n_of data ws d + 1)"
  by (simp add: mvals_def length_marker_values)

lemma nth_mvals:
  "0 \<le> k \<Longrightarrow> k \<le> n_of data ws d \<Longrightarrow> mvals data ws d ! nat k = fadd (fmul ws (of_int k)) (min_of data d)"
  by (simp add: mvals_def nth_marker_values)

lemma home_in_mvals:
  assumes "0 < ws" "r < length (rows data)"
  shows "fadd (fmul ws (of_int (bin_index data ws d r))) (min_of data d) \<in> set (mvals data ws d)"
proof -
  let ?k = "bin_index data ws d r"
  from bin_index_bounds(1,2)[OF assms, of d] have k: "0 \<le> ?k" "?k \<le> n_of data ws d" by simp_all
  then have "nat ?k < length (mvals data ws d)" by (simp add: length_mvals)
  then have "mvals data ws d ! nat ?k \<in> set (mvals data ws d)" by (rule nth_mem)
  then show ?thesis by (simp add: nth_mvals[OF k])
qed

lemma nodes_dim_graph:
  assumes "0 < ws" "rows data \<noteq> []"
    and rows: "\<And>r. r < length (rows data) \<Longrightarrow> has_node g (Row r)"
  shows "nodes (dim_graph data weights ws d g) = fold (marker_ins d) (mvals data ws d) (nodes g)"
proof -
  let ?mv = "mvals data ws d" and ?mn = "min_of data d" and ?w = "weights ! d"
  let ?g1 = "add_node g (marker_name d (?mv ! 0)) (Some (d, ?mv ! 0))"
  let ?g2 = "fold (chain_step d ?w ?mv) [1..<nat (n_of data ws d + 1)] ?g1"
  have n1: "1 \<le> n_of data ws d" by (rule n_of_pos[OF assms(1,2)])
  have len: "nat (n_of data ws d + 1) = Suc (nat (n_of data ws d))" using n1 by simp
  have "nodes (fold (chain_step d ?w ?mv) [1..<Suc (nat (n_of data ws d))]
            (add_node g (marker_name d (?mv ! 0)) (Some (d, ?mv ! 0))))
        = fold (marker_ins d) (take (Suc (nat (n_of data ws d))) ?mv) (nodes g)"
    by (rule nodes_chain) (simp add: length_mvals len)
  then have g2: "nodes ?g2 = fold (marker_ins d) ?mv (nodes g)"
    unfolding len[symmetric] by (simp add: length_mvals)
  have "nodes (fold (assign_step d ?w ws ?mn) (enumerate 0 (rows data)) ?g2) = nodes ?g2"
  proof (rule nodes_assign)
    fix ip assume "ip \<in> set (enumerate 0 (rows data))"
    then have "(fst ip, snd ip) \<in> set (enumerate 0 (rows data))" by simp
    from in_set_enumerate_rows[OF this]
    have r: "fst ip < length (rows data)" and p: "snd ip = rows data ! fst ip" by simp_all
    have "Row (fst ip) \<in> fst ` set (nodes g)"
      using rows[OF r] by (simp add: has_node_iff)
    then have a: "has_node ?g2 (Row (fst ip))"
      unfolding has_node_iff g2 set_map by (rule key_in_fold_marker_ins)
    have "fadd (fmul ws (of_int (py_int (fdiv (fsub (snd ip ! d) ?mn) ws)))) ?mn \<in> set ?mv"
      using home_in_mvals[OF assms(1) r, of d] by (simp add: bin_index_def p)
    then have b: "has_node ?g2 (marker_name d (fadd (fmul ws (of_int (py_int (fdiv (fsub (snd ip ! d) ?mn) ws)))) ?mn))"
      unfolding has_node_iff g2 set_map by (rule name_in_fold_marker_ins)
    from a b show "has_node ?g2 (Row (fst ip)) \<and>
        has_node ?g2 (marker_name d (fadd (fmul ws (of_int (py_int (fdiv (fsub (snd ip ! d) ?mn) ws)))) ?mn))"
      by simp
  qed
  then show ?thesis unfolding dim_graph_def g2 .
qed

lemma key_in_expanded_nodes_step:
  "n \<in> fst ` set ns \<Longrightarrow>
   n \<in> fst ` set (fold (\<lambda>d. fold (marker_ins d) (mvals data ws d)) ds ns)"
  by (induction ds arbitrary: ns) (simp_all add: key_in_fold_marker_ins)

lemma row_in_expanded_nodes:
  "r < length (rows data) \<Longrightarrow> Row r \<in> fst ` set (expanded_nodes data ws ds)"
  unfolding expanded_nodes_def
  by (rule key_in_expanded_nodes_step) (simp add: image_iff)

lemma nodes_dims:
  assumes "0 < ws" "rows data \<noteq> []"
  shows "nodes (fold (dim_graph data weights ws) ds (rows_added data)) = expanded_nodes data ws ds"
proof (induction ds rule: rev_induct)
  case Nil
  then show ?case by (simp add: expanded_nodes_def nodes_rows_added)
next
  case (snoc d ds)
  let ?g = "fold (dim_graph data weights ws) ds (rows_added data)"
  have "nodes (dim_graph data weights ws d ?g) = fold (marker_ins d) (mvals data ws d) (nodes ?g)"
  proof (rule nodes_dim_graph[OF assms])
    fix r assume "r < length (rows data)"
    from row_in_expanded_nodes[OF this, of ws ds]
    show "has_node ?g (Row r)" by (simp add: has_node_iff snoc.IH)
  qed
  then show ?case by (simp add: snoc.IH expanded_nodes_def)
qed

lemma nodes_expanded:
  "0 < ws \<Longrightarrow> rows data \<noteq> [] \<Longrightarrow>
   nodes (expanded data weights ws) = expanded_nodes data ws [0..<ncols data]"
  by (simp add: expanded_def nodes_dims)

lemma rows_of_marker_ins:
  "filter is_row (map fst (marker_ins d v ns)) = filter is_row (map fst ns)"
  by (simp add: marker_ins_def keys_ins_node)

lemma rows_of_fold_marker_ins:
  "filter is_row (map fst (fold (marker_ins d) vs ns)) = filter is_row (map fst ns)"
  by (induction vs arbitrary: ns) (simp_all add: rows_of_marker_ins)

lemma rows_of_expanded_nodes:
  "filter is_row (map fst (expanded_nodes data ws ds)) = map Row [0..<length (rows data)]"
proof -
  have "filter is_row (map fst (fold (\<lambda>d. fold (marker_ins d) (mvals data ws d)) ds ns))
        = filter is_row (map fst ns)" for ns
    by (induction ds arbitrary: ns) (simp_all add: rows_of_fold_marker_ins)
  then show ?thesis
    by (simp add: expanded_nodes_def comp_def)
qed

lemma distinct_marker_ins:
  "distinct (map fst ns) \<Longrightarrow> distinct (map fst (marker_ins d v ns))"
  by (simp add: marker_ins_def keys_ins_node)

lemma distinct_expanded_nodes: "distinct (map fst (expanded_nodes data ws ds))"
proof -
  have 1: "distinct (map fst ns) \<Longrightarrow> distinct (map fst (fold (marker_ins d) vs ns))" for d vs ns
    by (induction vs arbitrary: ns) (simp_all add: distinct_marker_ins)
  have 2: "distinct (map fst ns) \<Longrightarrow>
        distinct (map fst (fold (\<lambda>d. fold (marker_ins d) (mvals data ws d)) ds ns))" for ns
    by (induction ds arbitrary: ns) (simp_all add: 1)
  show ?thesis
    unfolding expanded_nodes_def by (rule 2) (simp add: comp_def distinct_map inj_on_def)
qed


lemma row_neighbors_iff:
  "u \<in> set (row_neighbors g m) \<longleftrightarrow> is_row u \<and> weight_of g m u \<noteq> None"
  by (auto simp: row_neighbors_def neighbors_def weight_of_def map_of_eq_None_iff image_iff)

lemma dim_pair_Row:
  assumes "dim_pair data ws d a (Row r)"
  shows "r < length (rows data) \<and> a = home data ws d r"
proof -
  from assms consider
    (row) r' where "r' < length (rows data)" "joins (Row r') (home data ws d r') a (Row r)"
  | (chain) i where "joins (marker_name d (mvals data ws d ! (i - 1)))
                       (marker_name d (mvals data ws d ! i)) a (Row r)"
    unfolding dim_pair_def by blast
  then show ?thesis
  proof cases
    case row
    from row(2) have "r' = r \<and> a = home data ws d r'"
      unfolding joins_def home_def by (elim disjE conjE) simp_all
    with row(1) show ?thesis by simp
  next
    case chain
    then have False unfolding joins_def by (elim disjE conjE) simp_all
    then show ?thesis ..
  qed
qed

lemma expanded_row_neighbor:
  assumes "Row r \<in> set (row_neighbors (expanded data weights ws) m)"
  obtains d where "d < ncols data" "r < length (rows data)" "m = home data ws d r"
    "weight_of (expanded data weights ws) m (Row r) = Some (weights ! d)"
proof -
  from assms obtain w where w: "weight_of (expanded data weights ws) m (Row r) = Some w"
    by (auto simp: row_neighbors_iff)
  from weight_of_expanded_cases[OF this] obtain d where
    d: "d < ncols data" "dim_pair data ws d m (Row r)" "w = weights ! d" by blast
  from dim_pair_Row[OF d(2)] d w show ?thesis by (intro that[of d]) simp_all
qed

lemma nodes_accumulate_edge:
  "has_node g u \<Longrightarrow> has_node g v \<Longrightarrow> nodes (accumulate_edge g u v w) = nodes g"
  by (simp add: accumulate_edge_def nodes_add_edge_same split: option.splits)

lemma nodes_accumulate_all:
  "(\<And>u v w. (u, v, w) \<in> set cs \<Longrightarrow> has_node g u \<and> has_node g v) \<Longrightarrow>
   nodes (accumulate_all cs g) = nodes g"
proof (induction cs arbitrary: g)
  case Nil
  then show ?case by simp
next
  case (Cons c cs)
  obtain u v w where c: "c = (u, v, w)" by (cases c)
  have uv: "has_node g u \<and> has_node g v" using Cons.prems[of u v w] by (simp add: c)
  then have e: "nodes (accumulate_edge g u v w) = nodes g" by (simp add: nodes_accumulate_edge)
  have "nodes (accumulate_all cs (accumulate_edge g u v w)) = nodes (accumulate_edge g u v w)"
  proof (rule Cons.IH)
    fix u' v' w' assume "(u', v', w') \<in> set cs"
    then show "has_node (accumulate_edge g u v w) u' \<and> has_node (accumulate_edge g u v w) v'"
      using Cons.prems[of u' v' w'] has_node_cong[OF e] by simp
  qed
  then show ?case by (simp add: c e)
qed

lemma ring_edges_mem:
  "(u, v, w') \<in> set (ring_edges N w) \<Longrightarrow> u \<in> set N \<and> v \<in> set N \<and> w' = w"
proof -
  assume "(u, v, w') \<in> set (ring_edges N w)"
  then obtain i where i: "i < length N" and u: "u = N ! i"
    and v: "v = N ! ((i + 1) mod length N)" and w: "w' = w"
    by (auto simp: ring_edges_def)
  from i have "0 < length N" by linarith
  then have "(i + 1) mod length N < length N" by (rule mod_less_divisor)
  then have "N ! ((i + 1) mod length N) \<in> set N" by (rule nth_mem)
  with i u v w show ?thesis by simp
qed

lemma bridge_edges_mem:
  "(u, v, w') \<in> set (bridge_edges g markers i N w) \<Longrightarrow> N \<noteq> [] \<Longrightarrow>
   u \<in> set N \<and> Suc i < length markers \<and> v \<in> set (row_neighbors g (fst (markers ! Suc i))) \<and> w' = w"
  by (auto simp: bridge_edges_def split: if_splits)

lemma marker_edges_mem:
  assumes "(u, v, w) \<in> set (marker_edges g markers i)"
  shows "u \<in> set (row_neighbors g (fst (markers ! i)))
         \<and> (v \<in> set (row_neighbors g (fst (markers ! i)))
            \<or> (Suc i < length markers \<and> v \<in> set (row_neighbors g (fst (markers ! Suc i)))))"
proof -
  let ?N = "row_neighbors g (fst (markers ! i))"
  from assms have ne: "?N \<noteq> []"
    by (auto simp: marker_edges_def Let_def split: if_splits)
  with assms consider
    "(u, v, w) \<in> set (ring_edges ?N (edge_weight g (fst (markers ! i)) (?N ! 0)))"
  | "(u, v, w) \<in> set (bridge_edges g markers i ?N (edge_weight g (fst (markers ! i)) (?N ! 0)))"
    by (auto simp: marker_edges_def Let_def)
  then show ?thesis
  proof cases
    case 1
    from ring_edges_mem[OF this] show ?thesis by simp
  next
    case 2
    from bridge_edges_mem[OF this ne] show ?thesis by simp
  qed
qed

lemma all_edges_mem:
  assumes "(u, v, w) \<in> set (all_edges g)"
  obtains m m' where "u \<in> set (row_neighbors g m)" "v \<in> set (row_neighbors g m')"
proof -
  from assms obtain d markers i where "(u, v, w) \<in> set (marker_edges g markers i)"
    by (auto simp: all_edges_def dim_edges_def)
  from marker_edges_mem[OF this] show ?thesis using that by blast
qed

lemma nodes_fold_add_node:
  "distinct xs \<Longrightarrow>
   nodes (fold (\<lambda>n g. add_node g n None) xs g0) = nodes g0 @ map (\<lambda>n. (n, None)) xs"
  if "set xs \<inter> fst ` set (nodes g0) = {}"
  using that
proof (induction xs arbitrary: g0)
  case Nil
  then show ?case by simp
next
  case (Cons x xs)
  have x: "map_of (nodes g0) x = None" using Cons.prems by (simp add: map_of_eq_None_iff)
  then have n: "nodes (add_node g0 x None) = nodes g0 @ [(x, None)]"
    by (simp add: nodes_add_node ins_node_def)
  have "nodes (fold (\<lambda>n g. add_node g n None) xs (add_node g0 x None))
        = nodes (add_node g0 x None) @ map (\<lambda>n. (n, None)) xs"
    by (rule Cons.IH) (use Cons.prems n in auto)
  then show ?case by (simp add: n)
qed

lemma nodes_pruned_start:
  "distinct (map fst (nodes g)) \<Longrightarrow>
   nodes (pruned_start g) = map (\<lambda>n. (n, None)) (filter is_row (map fst (nodes g)))"
  unfolding pruned_start_def
  by (subst nodes_fold_add_node) (simp_all add: empty_graph_def)

lemma nodes_pruned_expanded:
  assumes "0 < ws" "rows data \<noteq> []"
  shows "nodes (prune_markers_minimal (expanded data weights ws))
         = map (\<lambda>i. (Row i, None)) [0..<length (rows data)]"
proof -
  let ?G = "expanded data weights ws"
  have keys: "filter is_row (map fst (nodes ?G)) = map Row [0..<length (rows data)]"
    by (simp add: nodes_expanded[OF assms] rows_of_expanded_nodes)
  have "distinct (map fst (nodes ?G))"
    by (simp add: nodes_expanded[OF assms] distinct_expanded_nodes)
  from nodes_pruned_start[OF this]
  have start: "nodes (pruned_start ?G) = map (\<lambda>i. (Row i, None)) [0..<length (rows data)]"
    by (simp add: keys comp_def)
  have in_start: "has_node (pruned_start ?G) u" if "u \<in> set (row_neighbors ?G m)" for u m
  proof -
    from that have "is_row u" by (simp add: row_neighbors_iff)
    then obtain r where u: "u = Row r" by (cases u) simp_all
    from expanded_row_neighbor[OF that[unfolded u]] have "r < length (rows data)" by blast
    then show ?thesis by (simp add: has_node_iff start u comp_def image_iff)
  qed
  have "nodes (accumulate_all (all_edges ?G) (pruned_start ?G)) = nodes (pruned_start ?G)"
  proof (rule nodes_accumulate_all)
    fix u v w assume "(u, v, w) \<in> set (all_edges ?G)"
    from all_edges_mem[OF this] in_start
    show "has_node (pruned_start ?G) u \<and> has_node (pruned_start ?G) v" by blast
  qed
  then show ?thesis by (simp add: prune_eq start)
qed

section \<open>Evaluation of the inputs of one row\<close>

lemma one_g0:
  "fold (\<lambda>i g. add_node g (Row i) None) [0..<length (rows one_row)] empty_graph = g0_one"
  by (simp add: one_row_def g0_one_def graph_defs)

lemma one_col: "column one_row 0 = [0]"
  by (simp add: column_def one_row_def)

lemma neg_names: "marker_name 0 0 = Marker 0 False 0" "marker_name 0 (- 1) = Marker 0 True 10000"
  by (simp_all add: marker_name_def round_half_even_def)

lemma neg_dim: "dim_step one_row [1] (- 1) 0 g0_one = Inr G_neg"
proof -
  have 1: "np_max (column one_row 0) = Inr 0" by (simp add: one_col)
  have 2: "np_min (column one_row 0) = Inr 0" by (simp add: one_col)
  have 3: "marker_count 0 0 (- 1) = Inr 1" by (simp add: fl_eval marker_count_def py_int_def)
  have 4: "marker_values (- 1) 0 1 = [0, - 1]" by (simp add: fl_eval marker_values_def upto.simps)
  have 5: "fold (chain_step 0 1 [0, - 1]) [1..<2] (add_node g0_one (Marker 0 False 0) (Some (0, 0)))
      = \<lparr>nodes = [(Row 0, None), (Marker 0 False 0, Some (0, 0)),
               (Marker 0 True 10000, Some (0, - 1))],
          adj = [(Row 0, []), (Marker 0 False 0, [(Marker 0 True 10000, 1)]),
               (Marker 0 True 10000, [(Marker 0 False 0, 1)])]\<rparr>"
    by (simp add: g0_one_def chain_step_def neg_names graph_defs upt_rec)
  have 6: "assign_rows 0 1 (- 1) 0 [0, - 1] (enumerate 0 (rows one_row))
      \<lparr>nodes = [(Row 0, None), (Marker 0 False 0, Some (0, 0)),
               (Marker 0 True 10000, Some (0, - 1))],
          adj = [(Row 0, []), (Marker 0 False 0, [(Marker 0 True 10000, 1)]),
               (Marker 0 True 10000, [(Marker 0 False 0, 1)])]\<rparr> = Inr G_neg"
    by (simp add: fl_eval one_row_def G_neg_def py_index_def py_int_def neg_names graph_defs)
  show ?thesis
    using dim_step_eval[of 0 "[1]" one_row 0 0 "- 1" 1 0 "[- 1]" g0_one, OF _ 1 2 3 4] 5 6
    by (simp add: neg_names)
qed

lemma neg_expanded: "create_network one_row [1] (- 1) = Inr G_neg"
  using neg_dim one_g0 by (simp add: create_network_def one_row_def)

lemma tiny_names:
  "marker_name 0 0 = Marker 0 False 0" "marker_name 0 (1 / 32768) = Marker 0 False 0"
  by (simp_all add: marker_name_def round_half_even_def)

lemma tiny_dim: "dim_step one_row [1] (1 / 32768) 0 g0_one = Inr G_tiny"
proof -
  have 1: "np_max (column one_row 0) = Inr 0" by (simp add: one_col)
  have 2: "np_min (column one_row 0) = Inr 0" by (simp add: one_col)
  have 3: "marker_count 0 0 (1 / 32768) = Inr 1" by (simp add: fl_eval marker_count_def py_int_def)
  have 4: "marker_values (1 / 32768) 0 1 = [0, 1 / 32768]"
    by (simp add: fl_eval marker_values_def upto.simps)
  have 5: "fold (chain_step 0 1 [0, 1 / 32768]) [1..<2]
        (add_node g0_one (Marker 0 False 0) (Some (0, 0)))
      = \<lparr>nodes = [(Row 0, None), (Marker 0 False 0, Some (0, 1 / 32768))],
          adj = [(Row 0, []), (Marker 0 False 0, [(Marker 0 False 0, 1)])]\<rparr>"
    by (simp add: g0_one_def chain_step_def tiny_names graph_defs upt_rec)
  have 6: "assign_rows 0 1 (1 / 32768) 0 [0, 1 / 32768] (enumerate 0 (rows one_row))
      \<lparr>nodes = [(Row 0, None), (Marker 0 False 0, Some (0, 1 / 32768))],
          adj = [(Row 0, []), (Marker 0 False 0, [(Marker 0 False 0, 1)])]\<rparr> = Inr G_tiny"
    by (simp add: fl_eval one_row_def G_tiny_def py_index_def py_int_def tiny_names graph_defs)
  show ?thesis
    using dim_step_eval[of 0 "[1]" one_row 0 0 "1 / 32768" 1 0 "[1 / 32768]" g0_one, OF _ 1 2 3 4] 5 6
    by (simp add: tiny_names)
qed

lemma tiny_expanded: "create_network one_row [1] (1 / 32768) = Inr G_tiny"
  using tiny_dim one_g0 by (simp add: create_network_def one_row_def)

lemma tiny_sorted: "sorted_markers G_tiny = [(0, [(Marker 0 False 0, 1 / 32768)])]"
  by (simp add: G_tiny_def sorted_markers_def collect_markers_def append_marker_def)

lemma tiny_rn: "row_neighbors G_tiny (Marker 0 False 0) = [Row 0]"
  by (simp add: G_tiny_def row_neighbors_def neighbors_def adj_of_def)

lemma tiny_reduced: "prune_markers_minimal G_tiny = R_tiny"
proof -
  have gp0: "fold (\<lambda>n gp. add_node gp n None) (filter is_row (map fst (nodes G_tiny))) empty_graph
      = g0_one"
    by (simp add: G_tiny_def g0_one_def graph_defs)
  have rn: "row_neighbors G_tiny (fst ([(Marker 0 False 0, 1 / 32768 :: rat)] ! 0)) = [Row 0]"
    by (simp add: tiny_rn)
  have ew: "edge_weight G_tiny (Marker 0 False 0) (Row 0) = 1"
    by (simp add: G_tiny_def edge_weight_def adj_of_def)
  have "marker_step G_tiny [(Marker 0 False 0, 1 / 32768)] 0 g0_one = R_tiny"
    using marker_step_eval(2)[OF rn]
    by (simp add: ew bridge_def ring_def g0_one_def R_tiny_def graph_defs)
  then have "prune_dim G_tiny [(Marker 0 False 0, 1 / 32768)] g0_one = R_tiny"
    by (simp add: prune_dim_def)
  then show ?thesis
    by (simp add: prune_markers_minimal_def tiny_sorted gp0 Let_def)
qed

section \<open>Inputs that the builder does not accept\<close>

lemma dims_loop_append:
  "dims_loop f (xs @ ys) g
   = (case dims_loop f xs g of Inl e \<Rightarrow> Inl e | Inr g' \<Rightarrow> dims_loop f ys g')"
  by (induction xs arbitrary: g) (simp_all split: sum.splits)

lemma create_network_empty:
  assumes "rows data = []" "0 < ncols data" "weights \<noteq> []"
  shows "create_network data weights ws = Inl ValueError"
proof -
  have "[0..<ncols data] = 0 # [1..<ncols data]" using assms(2) by (simp add: upt_rec)
  moreover have "dim_step data weights ws 0 g = Inl ValueError" for g
    using assms by (simp add: dim_step_def column_def)
  ultimately show ?thesis by (simp add: create_network_def)
qed

lemma create_network_short_weights:
  assumes "rows data \<noteq> []" "0 < ws" "length weights < ncols data"
  shows "create_network data weights ws = Inl IndexError"
proof -
  let ?k = "length weights"
  have split: "[0..<ncols data] = [0..<?k] @ ?k # [Suc ?k..<ncols data]"
    using assms(3) by (metis upt_conv_Cons upt_add_eq_append le0 le_add_diff_inverse less_imp_le_nat add_0)
  have ok: "dims_loop (dim_step data weights ws) [0..<?k] g
        = Inr (fold (dim_graph data weights ws) [0..<?k] g)" for g
  proof (rule dims_loop_valid)
    fix d g assume "d \<in> set [0..<?k]"
    then have "d < length weights" by simp
    from dim_step_valid[OF assms(2,1) this]
    show "dim_step data weights ws d g = Inr (dim_graph data weights ws d g)" .
  qed
  have bad: "dim_step data weights ws ?k g = Inl IndexError" for g
    by (simp add: dim_step_def)
  show ?thesis
    unfolding create_network_def Let_def split dims_loop_append ok
    by (simp add: bad)
qed

lemma create_network_zero_window:
  assumes "rows data \<noteq> []" "0 < ncols data" "weights \<noteq> []"
  shows "create_network data weights 0
         = Inl (if fsub (max_of data 0) (min_of data 0) = 0 then ValueError else OverflowError)"
proof -
  have "[0..<ncols data] = 0 # [1..<ncols data]" using assms(2) by (simp add: upt_rec)
  moreover have "dim_step data weights 0 0 g
      = Inl (if fsub (max_of data 0) (min_of data 0) = 0 then ValueError else OverflowError)" for g
    using assms
    by (simp add: dim_step_def np_max_eq np_min_eq column_nonempty marker_count_def
        max_of_def min_of_def)
  ultimately show ?thesis by (simp add: create_network_def)
qed

lemma expanded_example: "expanded example_data [1] 2 = G_ex"
proof -
  have "valid_input example_data [1] 2" by (simp add: valid_input_def example_data_def)
  from create_network_expanded[OF this] example_expanded show ?thesis by simp
qed

lemma weight_of_home:
  "r < length (rows data) \<Longrightarrow> d < ncols data \<Longrightarrow>
   weight_of (expanded data weights ws) (Row r) (home data ws d r) = Some (weights ! d)"
  by (rule weight_of_expanded_some) (auto simp: dim_pair_def joins_def)

section \<open>The markers that the collapse visits\<close>

lemma dim_entries_Nil [simp]: "dim_entries [] d = []"
  by (simp add: dim_entries_def List.map_filter_simps)

lemma dim_entries_Cons:
  "dim_entries ((n, a) # ns) d =
     (case a of None \<Rightarrow> [] | Some (d', v) \<Rightarrow> if d' = d then [(n, v)] else []) @ dim_entries ns d"
  by (simp add: dim_entries_def List.map_filter_simps split: option.splits)

lemma dim_entries_append: "dim_entries (xs @ ys) d = dim_entries xs d @ dim_entries ys d"
  by (simp add: dim_entries_def map_filter_def)

lemma dim_entries_mem:
  "(n, v) \<in> set (dim_entries ns d) \<longleftrightarrow> (n, Some (d, v)) \<in> set ns"
  by (induction ns) (auto simp: dim_entries_Cons split: option.splits)

lemma keys_dim_entries_sub: "set (map fst (dim_entries ns d)) \<subseteq> set (map fst ns)"
proof
  fix n assume "n \<in> set (map fst (dim_entries ns d))"
  then obtain v where "(n, v) \<in> set (dim_entries ns d)" by auto
  then have "(n, Some (d, v)) \<in> set ns" by (simp add: dim_entries_mem)
  then show "n \<in> set (map fst ns)" by force
qed

lemma distinct_dim_entries:
  "distinct (map fst ns) \<Longrightarrow> distinct (map fst (dim_entries ns d))"
proof (induction ns)
  case Nil
  then show ?case by simp
next
  case (Cons x ns)
  obtain n a where x: "x = (n, a)" by (cases x)
  have "n \<notin> set (map fst (dim_entries ns d))"
    using Cons.prems keys_dim_entries_sub[of ns d] by (auto simp: x)
  then show ?case using Cons by (auto simp: x dim_entries_Cons split: option.splits)
qed

lemma map_of_append_marker:
  "map_of (append_marker d x m) d' =
     (if d' = d then Some ((case map_of m d of None \<Rightarrow> [] | Some l \<Rightarrow> l) @ [x]) else map_of m d')"
  by (auto simp: append_marker_def AList.update_conv' map_add_def split: option.splits)

lemma distinct_append_marker:
  "distinct (map fst m) \<Longrightarrow> distinct (map fst (append_marker d x m))"
  by (auto simp: append_marker_def AList.distinct_update map_of_eq_None_iff split: option.splits)

lemma map_of_collect_step:
  "map_of (collect_step (n, a) acc) d' =
     (case a of
        None \<Rightarrow> map_of acc d'
      | Some (d, v) \<Rightarrow>
          if d' = d then Some ((case map_of acc d of None \<Rightarrow> [] | Some l \<Rightarrow> l) @ [(n, v)])
          else map_of acc d')"
  by (simp add: collect_step_def map_of_append_marker split: option.splits)

lemma distinct_collect_step:
  "distinct (map fst acc) \<Longrightarrow> distinct (map fst (collect_step x acc))"
  by (cases x) (simp add: collect_step_def distinct_append_marker split: option.splits)

lemma distinct_collect_fold:
  "distinct (map fst acc) \<Longrightarrow> distinct (map fst (fold collect_step ns acc))"
  by (induction ns arbitrary: acc) (simp_all add: distinct_collect_step)

lemma map_of_collect_fold:
  "map_of (fold collect_step ns acc) d =
     (case map_of acc d of
        None \<Rightarrow> (if dim_entries ns d = [] then None else Some (dim_entries ns d))
      | Some l \<Rightarrow> Some (l @ dim_entries ns d))"
proof (induction ns arbitrary: acc)
  case Nil
  then show ?case by (simp split: option.splits)
next
  case (Cons x ns)
  obtain n a where x: "x = (n, a)" by (cases x)
  have "map_of (fold collect_step ((n, a) # ns) acc) d
        = map_of (fold collect_step ns (collect_step (n, a) acc)) d"
    by simp
  also have "\<dots> = (case map_of (collect_step (n, a) acc) d of
        None \<Rightarrow> (if dim_entries ns d = [] then None else Some (dim_entries ns d))
      | Some l \<Rightarrow> Some (l @ dim_entries ns d))"
    by (rule Cons.IH)
  also have "\<dots> = (case map_of acc d of
        None \<Rightarrow> (if dim_entries ((n, a) # ns) d = [] then None
                 else Some (dim_entries ((n, a) # ns) d))
      | Some l \<Rightarrow> Some (l @ dim_entries ((n, a) # ns) d))"
    by (cases a; cases "map_of acc d")
       (auto simp: map_of_collect_step dim_entries_Cons split: option.splits if_splits)
  finally show ?case unfolding x .
qed

lemma collect_markers_fold: "collect_markers g = fold collect_step (nodes g) []"
  by (simp add: collect_markers_def collect_step_def)

lemma distinct_collect_markers: "distinct (map fst (collect_markers g))"
  by (simp add: collect_markers_fold distinct_collect_fold)

lemma collect_markers_mem:
  "(d, ms) \<in> set (collect_markers g) \<longleftrightarrow> ms = dim_entries (nodes g) d \<and> ms \<noteq> []"
proof -
  have "(d, ms) \<in> set (collect_markers g) \<longleftrightarrow> map_of (collect_markers g) d = Some ms"
    using distinct_collect_markers[of g] by simp
  also have "\<dots> \<longleftrightarrow> ms = dim_entries (nodes g) d \<and> ms \<noteq> []"
    by (auto simp: collect_markers_fold map_of_collect_fold)
  finally show ?thesis .
qed

lemma sorted_markers_mem:
  "(d, ms) \<in> set (sorted_markers g) \<longleftrightarrow>
     ms = sort_key snd (dim_entries (nodes g) d) \<and> dim_entries (nodes g) d \<noteq> []"
proof -
  have "(d, ms) \<in> set (sorted_markers g)
        \<longleftrightarrow> (\<exists>l. (d, l) \<in> set (collect_markers g) \<and> ms = sort_key snd l)"
    unfolding sorted_markers_def by force
  then show ?thesis by (auto simp: collect_markers_mem)
qed

lemma distinct_sorted_markers: "distinct (map fst (sorted_markers g))"
proof -
  have "map fst (sorted_markers g) = map fst (collect_markers g)"
    by (simp add: sorted_markers_def comp_def case_prod_beta)
  then show ?thesis by (simp add: distinct_collect_markers)
qed

lemma sorted_markers_entry:
  assumes "(d, ms) \<in> set (sorted_markers g)" "distinct (map fst (nodes g))"
  shows "distinct (map fst ms)" "\<And>n v. (n, v) \<in> set ms \<longleftrightarrow> (n, Some (d, v)) \<in> set (nodes g)"
proof -
  from assms(1) have ms: "ms = sort_key snd (dim_entries (nodes g) d)"
    by (simp add: sorted_markers_mem)
  have "distinct (map fst ms) = distinct (map fst (dim_entries (nodes g) d))"
    by (simp add: ms distinct_map)
  then show "distinct (map fst ms)"
    using distinct_dim_entries[OF assms(2)] by simp
  show "\<And>n v. (n, v) \<in> set ms \<longleftrightarrow> (n, Some (d, v)) \<in> set (nodes g)"
    by (simp add: ms dim_entries_mem)
qed


lemma set_update_sub: "set (AList.update k v al) \<subseteq> insert (k, v) (set al)"
  by (induction al) auto

lemma set_ins_node: "set (ins_node ns n a) \<subseteq> insert (n, a) (set ns)"
  using set_update_sub[of n a ns] by (auto simp: ins_node_def split: option.splits)

lemma set_fold_marker_ins:
  "set (fold (marker_ins d) vs ns) \<subseteq> set ns \<union> (\<lambda>v. (marker_name d v, Some (d, v))) ` set vs"
proof (induction vs arbitrary: ns)
  case Nil
  then show ?case by simp
next
  case (Cons v vs)
  have "set (marker_ins d v ns) \<subseteq> insert (marker_name d v, Some (d, v)) (set ns)"
    unfolding marker_ins_def by (rule set_ins_node)
  with Cons.IH[of "marker_ins d v ns"] show ?case by auto
qed

lemma set_expanded_nodes_step:
  "set (fold (\<lambda>d. fold (marker_ins d) (mvals data ws d)) ds ns)
     \<subseteq> set ns \<union> (\<Union>d\<in>set ds. (\<lambda>v. (marker_name d v, Some (d, v))) ` set (mvals data ws d))"
proof (induction ds arbitrary: ns)
  case Nil
  then show ?case by simp
next
  case (Cons d ds)
  from Cons.IH[of "fold (marker_ins d) (mvals data ws d) ns"]
    set_fold_marker_ins[of d "mvals data ws d" ns]
  show ?case by auto
qed

lemma expanded_nodes_marker:
  assumes "(n, Some (d, v)) \<in> set (expanded_nodes data ws ds)"
  shows "n = marker_name d v \<and> d \<in> set ds \<and> v \<in> set (mvals data ws d)"
proof -
  from assms set_expanded_nodes_step[of data ws ds "map (\<lambda>i. (Row i, None)) [0..<length (rows data)]"]
  have "(n, Some (d, v)) \<in> set (map (\<lambda>i. (Row i, None :: (nat \<times> rat) option)) [0..<length (rows data)])
      \<union> (\<Union>d\<in>set ds. (\<lambda>v. (marker_name d v, Some (d, v))) ` set (mvals data ws d))"
    unfolding expanded_nodes_def by blast
  then show ?thesis by auto
qed

lemma sorted_markers_expanded:
  assumes "0 < ws" "rows data \<noteq> []"
    and "(d, ms) \<in> set (sorted_markers (expanded data weights ws))"
  shows "distinct (map fst ms)"
    and "\<And>n v. (n, v) \<in> set ms \<Longrightarrow>
           n = marker_name d v \<and> d < ncols data \<and> v \<in> set (mvals data ws d)"
proof -
  let ?G = "expanded data weights ws"
  have dist: "distinct (map fst (nodes ?G))"
    by (simp add: nodes_expanded[OF assms(1,2)] distinct_expanded_nodes)
  show "distinct (map fst ms)" by (rule sorted_markers_entry(1)[OF assms(3) dist])
  fix n v assume "(n, v) \<in> set ms"
  then have "(n, Some (d, v)) \<in> set (nodes ?G)"
    by (simp add: sorted_markers_entry(2)[OF assms(3) dist])
  then have "(n, Some (d, v)) \<in> set (expanded_nodes data ws [0..<ncols data])"
    by (simp add: nodes_expanded[OF assms(1,2)])
  from expanded_nodes_marker[OF this]
  show "n = marker_name d v \<and> d < ncols data \<and> v \<in> set (mvals data ws d)" by simp
qed

lemma sorted_markers_expanded_dim:
  assumes "0 < ws" "rows data \<noteq> []"
    and "(d, ms) \<in> set (sorted_markers (expanded data weights ws))" "i < length ms"
  shows "node_dim (fst (ms ! i)) = Some d" "d < ncols data"
proof -
  have "(fst (ms ! i), snd (ms ! i)) \<in> set ms" using assms(4) by simp
  from sorted_markers_expanded(2)[OF assms(1,2,3) this]
  have "fst (ms ! i) = marker_name d (snd (ms ! i))" and d: "d < ncols data" by simp_all
  then show "node_dim (fst (ms ! i)) = Some d"
    by (metis node_dim_marker_name)
  show "d < ncols data" by (rule d)
qed

lemma edge_weight_eq: "edge_weight g u v = (case weight_of g u v of None \<Rightarrow> 1 | Some w \<Rightarrow> w)"
  by (simp add: edge_weight_def weight_of_def)

lemma edge_weight_expanded:
  assumes "u \<in> set (row_neighbors (expanded data weights ws) m)" "node_dim m = Some d"
  shows "edge_weight (expanded data weights ws) m u = weights ! d"
proof -
  from assms(1) have "is_row u" by (simp add: row_neighbors_iff)
  then obtain r where u: "u = Row r" by (cases u) simp_all
  from expanded_row_neighbor[OF assms(1)[unfolded u]] obtain d' where
    d': "m = home data ws d' r"
      "weight_of (expanded data weights ws) m (Row r) = Some (weights ! d')"
    by blast
  from d'(1) assms(2) have "d' = d" by simp
  with d'(2) show ?thesis by (simp add: edge_weight_eq u)
qed

lemma edge_weight_first:
  assumes "row_neighbors (expanded data weights ws) m = N" "N \<noteq> []" "node_dim m = Some d"
  shows "edge_weight (expanded data weights ws) m (N ! 0) = weights ! d"
proof -
  from assms(2) have "N ! 0 \<in> set N" by (cases N) simp_all
  then have "N ! 0 \<in> set (row_neighbors (expanded data weights ws) m)" by (simp add: assms(1))
  from edge_weight_expanded[OF this assms(3)] show ?thesis .
qed

lemma adj_of_empty [simp]: "adj_of empty_graph x = []"
  by (simp add: adj_of_def empty_graph_def)

lemma adj_distinct_empty: "adj_distinct empty_graph"
  by (simp add: adj_distinct_def)

lemma adj_distinct_add_node: "adj_distinct g \<Longrightarrow> adj_distinct (add_node g n a)"
  by (simp add: adj_distinct_def)

lemma adj_distinct_set_nbr: "adj_distinct g \<Longrightarrow> adj_distinct (set_nbr g u v w)"
  by (simp add: adj_distinct_def adj_of_set_nbr AList.distinct_update)

lemma adj_distinct_add_edge: "adj_distinct g \<Longrightarrow> adj_distinct (add_edge g u v w)"
  by (simp add: add_edge_def set_weight_def adj_distinct_set_nbr adj_distinct_add_node)

lemma adj_distinct_fold:
  "(\<And>x g. P g \<Longrightarrow> P (f x g)) \<Longrightarrow> P g \<Longrightarrow> P (fold f xs g)"
  by (induction xs arbitrary: g) simp_all

lemma adj_distinct_expanded: "adj_distinct (expanded data weights ws)"
proof -
  have c: "adj_distinct g \<Longrightarrow> adj_distinct (chain_step d w mv i g)" for d w mv i g
    by (simp add: chain_step_def adj_distinct_add_edge adj_distinct_add_node)
  have a: "adj_distinct g \<Longrightarrow> adj_distinct (assign_step d w ws mn ip g)" for d w mn ip g
    by (simp add: assign_step_def adj_distinct_add_edge)
  have r: "adj_distinct (rows_added data)"
    unfolding rows_added_def
    by (rule adj_distinct_fold[where P = adj_distinct]) (simp_all add: adj_distinct_add_node adj_distinct_empty)
  have d: "adj_distinct g \<Longrightarrow> adj_distinct (dim_graph data weights ws d g)" for d g
    unfolding dim_graph_def
    by (intro adj_distinct_fold[where P = adj_distinct] a c adj_distinct_add_node)
  show ?thesis
    unfolding expanded_def
    by (rule adj_distinct_fold[where P = adj_distinct]) (simp_all add: d r)
qed

lemma distinct_row_neighbors: "adj_distinct g \<Longrightarrow> distinct (row_neighbors g m)"
  by (simp add: adj_distinct_def row_neighbors_def neighbors_def distinct_map_filter)

lemma symmetric_rows_added: "symmetric (rows_added data)"
  by (simp add: symmetric_def)

section \<open>One marker of the collapse\<close>

lemma bridge_none:
  "row_neighbors g (fst (markers ! Suc i)) = [] \<Longrightarrow> bridge g markers i nbrs w gp = gp"
  by (simp add: bridge_def)

lemma bridge_some:
  "Suc i < length markers \<Longrightarrow> row_neighbors g (fst (markers ! Suc i)) = N' \<Longrightarrow> N' \<noteq> [] \<Longrightarrow>
   bridge g markers i nbrs w gp = accumulate_edge gp (nbrs ! 0) (N' ! 0) w"
  by (auto simp: bridge_def)

lemma marker_step_nonempty:
  "row_neighbors g (fst (markers ! i)) = N \<Longrightarrow> N \<noteq> [] \<Longrightarrow>
   marker_step g markers i gp =
     bridge g markers i N (edge_weight g (fst (markers ! i)) (N ! 0))
       (ring N (edge_weight g (fst (markers ! i)) (N ! 0)) gp)"
  by (auto simp: marker_step_def Let_def)

lemma symmetric_ring: "symmetric gp \<Longrightarrow> symmetric (ring N w gp)"
  by (simp add: ring_eq symmetric_accumulate_all)

lemma has_edge_ring_all:
  "list_all (\<lambda>k. has_edge (ring N w gp) (N ! k) (N ! ((k + 1) mod length N))) [0..<length N]"
  unfolding list_all_iff using has_edge_ring[of _ N w gp] by auto

section \<open>The weight that one dimension adds at a row\<close>

lemma length_filter_or:
  "length (filter (\<lambda>x. P x \<or> Q x) xs) \<le> length (filter P xs) + length (filter Q xs)"
  by (induction xs) auto

lemma length_filter_le1:
  assumes "distinct xs" "\<forall>a\<in>set xs. \<forall>b\<in>set xs. P a \<longrightarrow> P b \<longrightarrow> a = b"
  shows "length (filter P xs) \<le> 1"
proof -
  have "distinct (filter P xs)" using assms(1) by simp
  then have "length (filter P xs) = card (set (filter P xs))" by (rule distinct_card[symmetric])
  also have "\<dots> \<le> Suc 0"
    by (rule iffD2[OF card_le_Suc0_iff_eq]) (use assms(2) in auto)
  finally show ?thesis by simp
qed

lemma sum_list_if_le:
  assumes "distinct xs" "\<forall>a\<in>set xs. \<forall>b\<in>set xs. P a \<longrightarrow> P b \<longrightarrow> a = b"
  shows "sum_list (map (\<lambda>x. if P x then c else 0) xs) \<le> (c :: nat)"
proof -
  have "sum_list (map (\<lambda>x. if P x then c else 0) xs) = c * length (filter P xs)"
    by (induction xs) simp_all
  also have "\<dots> \<le> c * 1" by (rule mult_le_mono2) (rule length_filter_le1[OF assms])
  finally show ?thesis by simp
qed

lemma succ_mod_inj: "i < L \<Longrightarrow> j < L \<Longrightarrow> Suc i mod L = Suc j mod L \<Longrightarrow> i = j"
  by (simp add: mod_Suc split: if_splits)

lemma ring_touch_none: "r \<notin> set N \<Longrightarrow> filter (touches r) (ring_edges N w) = []"
  unfolding filter_empty_conv touches_def using ring_edges_mem[of _ _ _ N w] by fastforce

lemma ring_touch_count:
  assumes "distinct N"
  shows "length (filter (touches r) (ring_edges N w)) \<le> 2"
proof -
  let ?L = "length N"
  have "length (filter (touches r) (ring_edges N w))
        = length (filter (\<lambda>i. N ! i = r \<or> N ! (Suc i mod ?L) = r) [0..<?L])"
    by (simp add: ring_edges_def filter_map o_def touches_def)
  also have "\<dots> \<le> length (filter (\<lambda>i. N ! i = r) [0..<?L])
                  + length (filter (\<lambda>i. N ! (Suc i mod ?L) = r) [0..<?L])"
    by (rule length_filter_or)
  also have "\<dots> \<le> 1 + 1"
  proof (rule add_mono)
    show "length (filter (\<lambda>i. N ! i = r) [0..<?L]) \<le> 1"
      by (rule length_filter_le1) (use assms in \<open>auto simp: nth_eq_iff_index_eq\<close>)
    show "length (filter (\<lambda>i. N ! (Suc i mod ?L) = r) [0..<?L]) \<le> 1"
    proof (rule length_filter_le1, simp, intro ballI impI)
      fix a b
      assume a: "a \<in> set [0..<?L]" and b: "b \<in> set [0..<?L]"
        and ea: "N ! (Suc a mod ?L) = r" and eb: "N ! (Suc b mod ?L) = r"
      from a b have al: "a < ?L" and bl: "b < ?L" by simp_all
      from al have "0 < ?L" by linarith
      then have la: "Suc a mod ?L < ?L" and lb: "Suc b mod ?L < ?L"
        by (rule mod_less_divisor)+
      have "(N ! (Suc a mod ?L) = N ! (Suc b mod ?L)) = (Suc a mod ?L = Suc b mod ?L)"
        by (rule nth_eq_iff_index_eq[OF assms la lb])
      then have "Suc a mod ?L = Suc b mod ?L" by (simp add: ea eb)
      then show "a = b" by (rule succ_mod_inj[OF al bl])
    qed
  qed
  finally show ?thesis by simp
qed

lemma ring_touch_bound:
  "distinct N \<Longrightarrow>
   length (filter (touches r) (ring_edges N w)) \<le> (if r \<in> set N then 2 else 0)"
  by (simp add: ring_touch_none ring_touch_count)

lemma bridge_touch_bound:
  assumes "N \<noteq> []"
  shows "length (filter (touches r) (bridge_edges g ms i N w))
         \<le> (if r \<in> set N then 1 else 0)
           + (if Suc i < length ms \<and> r \<in> set (row_neighbors g (fst (ms ! Suc i))) then 1 else 0)"
proof (cases "Suc i < length ms \<and> row_neighbors g (fst (ms ! Suc i)) \<noteq> []")
  case False
  then have "bridge_edges g ms i N w = []"
    unfolding bridge_edges_def by (simp only: if_False)
  then show ?thesis by simp
next
  case True
  let ?N' = "row_neighbors g (fst (ms ! Suc i))"
  have be: "bridge_edges g ms i N w = [(N ! 0, ?N' ! 0, w)]"
    using True by (simp add: bridge_edges_def)
  have n0: "N ! 0 \<in> set N" using assms by (cases N) simp_all
  have n0': "?N' ! 0 \<in> set ?N'" using True by (cases ?N') simp_all
  show ?thesis
  proof (cases "touches r (N ! 0, ?N' ! 0, w)")
    case False
    then show ?thesis by (simp add: be)
  next
    case t: True
    then have "r \<in> set N \<or> r \<in> set ?N'" using n0 n0' by (auto simp: touches_def)
    then show ?thesis using t True by (auto simp: be)
  qed
qed

lemma marker_touch_bound:
  assumes "distinct (row_neighbors g (fst (ms ! i)))"
  shows "length (filter (touches r) (marker_edges g ms i))
         \<le> (if r \<in> set (row_neighbors g (fst (ms ! i))) then 3 else 0)
           + (if Suc i < length ms \<and> r \<in> set (row_neighbors g (fst (ms ! Suc i))) then 1 else 0)"
proof (cases "row_neighbors g (fst (ms ! i)) = []")
  case True
  then show ?thesis by (simp add: marker_edges_def)
next
  case False
  let ?N = "row_neighbors g (fst (ms ! i))"
  let ?w = "edge_weight g (fst (ms ! i)) (?N ! 0)"
  have me: "marker_edges g ms i = ring_edges ?N ?w @ bridge_edges g ms i ?N ?w"
    using False by (simp add: marker_edges_def Let_def)
  have "length (filter (touches r) (marker_edges g ms i))
        = length (filter (touches r) (ring_edges ?N ?w))
          + length (filter (touches r) (bridge_edges g ms i ?N ?w))"
    by (simp add: me)
  also have "\<dots> \<le> (if r \<in> set ?N then 2 else 0)
      + ((if r \<in> set ?N then 1 else 0)
         + (if Suc i < length ms \<and> r \<in> set (row_neighbors g (fst (ms ! Suc i))) then 1 else 0))"
    by (rule add_mono[OF ring_touch_bound[OF assms] bridge_touch_bound[OF False]])
  finally show ?thesis by (simp split: if_splits)
qed

lemma dim_touch_count:
  "length (filter (touches r) (dim_edges g ms))
   = sum_list (map (\<lambda>i. length (filter (touches r) (marker_edges g ms i))) [0..<length ms])"
  by (simp add: dim_edges_def filter_concat length_concat o_def)

lemma dim_touch_bound:
  assumes dn: "\<And>i. i < length ms \<Longrightarrow> distinct (row_neighbors g (fst (ms ! i)))"
    and uq: "\<And>i j. i < length ms \<Longrightarrow> j < length ms \<Longrightarrow>
               r \<in> set (row_neighbors g (fst (ms ! i))) \<Longrightarrow>
               r \<in> set (row_neighbors g (fst (ms ! j))) \<Longrightarrow> i = j"
  shows "length (filter (touches r) (dim_edges g ms)) \<le> 4"
proof -
  let ?L = "length ms"
  let ?P = "\<lambda>i. r \<in> set (row_neighbors g (fst (ms ! i)))"
  let ?A = "\<lambda>i. if ?P i then 3 else (0 :: nat)"
  let ?Q = "\<lambda>i. Suc i < ?L \<and> ?P (Suc i)"
  let ?B = "\<lambda>i. if ?Q i then 1 else (0 :: nat)"
  have "length (filter (touches r) (dim_edges g ms))
        = sum_list (map (\<lambda>i. length (filter (touches r) (marker_edges g ms i))) [0..<?L])"
    by (rule dim_touch_count)
  also have "\<dots> \<le> sum_list (map (\<lambda>i. ?A i + ?B i) [0..<?L])"
    by (rule sum_list_mono) (use dn in \<open>simp add: marker_touch_bound\<close>)
  also have "\<dots> = sum_list (map ?A [0..<?L]) + sum_list (map ?B [0..<?L])"
    by (rule sum_list_addf)
  also have "\<dots> \<le> 3 + 1"
  proof (rule add_mono)
    show "sum_list (map ?A [0..<?L]) \<le> 3"
      by (rule sum_list_if_le) (use uq in auto)
    show "sum_list (map ?B [0..<?L]) \<le> 1"
    proof (rule sum_list_if_le, simp, intro ballI impI)
      fix a b
      assume "?Q a" "?Q b"
      then have "Suc a = Suc b" using uq[of "Suc a" "Suc b"] by blast
      then show "a = b" by simp
    qed
  qed
  finally show ?thesis by simp
qed

lemma sum_list_const_weight:
  "\<forall>c\<in>set cs. snd (snd c) = w \<Longrightarrow>
   sum_list (map (\<lambda>c. snd (snd c)) cs) = of_nat (length cs) * (w :: rat)"
  by (induction cs) (simp_all add: algebra_simps)

lemma marker_edges_weight:
  assumes "(u, v, w) \<in> set (marker_edges (expanded data weights ws) ms i)"
    "node_dim (fst (ms ! i)) = Some d"
  shows "w = weights ! d"
proof -
  let ?G = "expanded data weights ws"
  let ?N = "row_neighbors ?G (fst (ms ! i))"
  let ?w = "edge_weight ?G (fst (ms ! i)) (?N ! 0)"
  have ne: "?N \<noteq> []" using assms(1) by (auto simp: marker_edges_def)
  then have me: "marker_edges ?G ms i = ring_edges ?N ?w @ bridge_edges ?G ms i ?N ?w"
    by (simp add: marker_edges_def Let_def)
  have w: "?w = weights ! d" by (rule edge_weight_first[OF refl ne assms(2)])
  from assms(1) have "(u, v, w) \<in> set (ring_edges ?N ?w) \<or> (u, v, w) \<in> set (bridge_edges ?G ms i ?N ?w)"
    by (simp add: me)
  then have "w = ?w" using ring_edges_mem bridge_edges_mem[OF _ ne] by blast
  then show ?thesis by (simp only: w)
qed

lemma dim_edges_weight:
  assumes "0 < ws" "rows data \<noteq> []"
    and "(d, ms) \<in> set (sorted_markers (expanded data weights ws))"
    and "c \<in> set (dim_edges (expanded data weights ws) ms)"
  shows "snd (snd c) = weights ! d"
proof -
  from assms(4) obtain i where i: "i < length ms"
    and c: "c \<in> set (marker_edges (expanded data weights ws) ms i)"
    by (auto simp: dim_edges_def)
  obtain u v w where cc: "c = (u, v, w)" by (cases c) auto
  have "w = weights ! d"
    by (rule marker_edges_weight[OF c[unfolded cc] sorted_markers_expanded_dim(1)[OF assms(1,2,3) i]])
  then show ?thesis by (simp add: cc)
qed

lemma row_marker_unique:
  assumes "0 < ws" "rows data \<noteq> []"
    and "(d, ms) \<in> set (sorted_markers (expanded data weights ws))"
    and "i < length ms" "j < length ms"
    and "Row r \<in> set (row_neighbors (expanded data weights ws) (fst (ms ! i)))"
    and "Row r \<in> set (row_neighbors (expanded data weights ws) (fst (ms ! j)))"
  shows "i = j"
proof -
  have h: "fst (ms ! k) = home data ws d r"
    if k: "k < length ms" and m: "Row r \<in> set (row_neighbors (expanded data weights ws) (fst (ms ! k)))"
    for k
  proof -
    from m obtain d' where d': "fst (ms ! k) = home data ws d' r"
      by (rule expanded_row_neighbor)
    have "node_dim (fst (ms ! k)) = Some d"
      by (rule sorted_markers_expanded_dim(1)[OF assms(1,2,3) k])
    then have "d' = d" by (simp add: d')
    then show ?thesis by (simp add: d')
  qed
  have e: "map fst ms ! i = map fst ms ! j"
    using h[OF assms(4,6)] h[OF assms(5,7)] assms(4,5) by simp
  have dm: "distinct (map fst ms)" by (rule sorted_markers_expanded(1)[OF assms(1,2,3)])
  have "(map fst ms ! i = map fst ms ! j) = (i = j)"
    by (rule nth_eq_iff_index_eq[OF dm]) (use assms(4,5) in simp_all)
  with e show ?thesis by simp
qed

lemma contribution_expanded:
  assumes "0 < ws" "rows data \<noteq> []"
    and "(d, ms) \<in> set (sorted_markers (expanded data weights ws))"
  shows "contribution (dim_edges (expanded data weights ws) ms) (Row r)
         = of_nat (length (filter (touches (Row r)) (dim_edges (expanded data weights ws) ms)))
           * weights ! d"
    and "length (filter (touches (Row r)) (dim_edges (expanded data weights ws) ms)) \<le> 4"
proof -
  let ?G = "expanded data weights ws"
  show "contribution (dim_edges ?G ms) (Row r)
         = of_nat (length (filter (touches (Row r)) (dim_edges ?G ms))) * weights ! d"
    unfolding contribution_def
    by (rule sum_list_const_weight) (use dim_edges_weight[OF assms] in auto)
  show "length (filter (touches (Row r)) (dim_edges ?G ms)) \<le> 4"
  proof (rule dim_touch_bound)
    show "distinct (row_neighbors ?G (fst (ms ! i)))" for i
      by (rule distinct_row_neighbors[OF adj_distinct_expanded])
    show "i = j" if "i < length ms" "j < length ms"
      "Row r \<in> set (row_neighbors ?G (fst (ms ! i)))"
      "Row r \<in> set (row_neighbors ?G (fst (ms ! j)))" for i j
      by (rule row_marker_unique[OF assms that])
  qed
qed

lemma dim_markers_cases:
  "dim_markers g d = [] \<or> (d, dim_markers g d) \<in> set (sorted_markers g)"
  by (auto simp: dim_markers_def sorted_markers_mem)

lemma ex_markers: "dim_markers G_ex 0 = ms_ex"
  by (simp add: dim_markers_def G_ex_def ms_ex_def dim_entries_Cons)

lemma ex_edges:
  "dim_edges G_ex ms_ex =
     [(Row 0, Row 1, 1), (Row 1, Row 0, 1), (Row 0, Row 2, 1),
      (Row 2, Row 3, 1), (Row 3, Row 2, 1)]"
proof -
  have idx: "[0..<length ms_ex] = [0, 1, 2]" by (simp add: ms_ex_def upt_rec)
  have 0: "marker_edges G_ex ms_ex 0 = [(Row 0, Row 1, 1), (Row 1, Row 0, 1), (Row 0, Row 2, 1)]"
    by (simp add: marker_edges_def ms_ex_def ex_rn ex_ew ring_edges_def bridge_edges_def upt_rec)
  have 1: "marker_edges G_ex ms_ex 1 = [(Row 2, Row 3, 1), (Row 3, Row 2, 1)]"
    by (simp add: marker_edges_def ms_ex_def ex_rn ex_ew ring_edges_def bridge_edges_def upt_rec)
  have 2: "marker_edges G_ex ms_ex 2 = []"
    by (simp add: marker_edges_def ms_ex_def ex_rn)
  show ?thesis unfolding dim_edges_def idx using 0 1 2 by simp
qed

lemma symmetric_pruned_start: "symmetric (pruned_start g)"
proof -
  have "symmetric (fold (\<lambda>n gp. add_node gp n None) xs g0)" if "symmetric g0" for xs g0
    using that by (induction xs arbitrary: g0) (simp_all add: symmetric_add_node)
  then show ?thesis by (simp add: pruned_start_def symmetric_empty)
qed

lemma wt_pruned_start: "wt (pruned_start g) a b = 0"
proof -
  have "weight_of (fold (\<lambda>n gp. add_node gp n None) xs g0) a b = weight_of g0 a b" for xs g0
    by (induction xs arbitrary: g0) (simp_all add: weight_of_add_node)
  then show ?thesis by (simp add: pruned_start_def wt_def weight_of_empty)
qed

lemma wt_reduced:
  "wt (prune_markers_minimal g) a b = (\<Sum>(u, v, w)\<leftarrow>all_edges g. if joins u v a b then w else 0)"
  by (simp add: prune_eq wt_accumulate_all[OF symmetric_pruned_start] wt_pruned_start)

lemma all_edges_dims:
  "all_edges g = concat (map (\<lambda>d. dim_edges g (dim_markers g d)) (map fst (sorted_markers g)))"
proof -
  have e: "map (\<lambda>(d, ms). dim_edges g ms) (sorted_markers g)
        = map (\<lambda>p. dim_edges g (dim_markers g (fst p))) (sorted_markers g)"
    by (rule map_cong) (auto simp: sorted_markers_mem dim_markers_def)
  show ?thesis unfolding all_edges_def e by (simp add: o_def)
qed


lemma sum_delta_upt: "k < R \<Longrightarrow> (\<Sum>b\<leftarrow>[0..<R]. if b = k then w else 0) = (w :: rat)"
  by (simp add: interv_sum_list_conv_sum_set_nat)

lemma call_total:
  assumes "i < R" "j < R"
  shows "(\<Sum>b\<leftarrow>[0..<R]. if joins (Row i) (Row j) (Row r) (Row b) then w else 0)
         = (if i = r \<or> j = r then (w :: rat) else 0)"
proof -
  consider (both) "i = r" "j = r" | (l) "i = r" "j \<noteq> r" | (rt) "i \<noteq> r" "j = r"
    | (none) "i \<noteq> r" "j \<noteq> r" by blast
  then show ?thesis
  proof cases
    case both
    then have "joins (Row i) (Row j) (Row r) (Row b) = (b = r)" for b
      unfolding joins_def by blast
    then show ?thesis using both assms by (simp only: sum_delta_upt) simp
  next
    case l
    then have "joins (Row i) (Row j) (Row r) (Row b) = (b = j)" for b
      unfolding joins_def by blast
    then show ?thesis using l assms by (simp only: sum_delta_upt) simp
  next
    case rt
    then have "joins (Row i) (Row j) (Row r) (Row b) = (b = i)" for b
      unfolding joins_def by blast
    then show ?thesis using rt assms by (simp only: sum_delta_upt) simp
  next
    case none
    then have "joins (Row i) (Row j) (Row r) (Row b) = False" for b
      unfolding joins_def by blast
    then show ?thesis using none by (simp only: if_False) simp
  qed
qed

lemma contribution_Cons:
  "contribution (c # cs) r = (if touches r c then snd (snd c) else 0) + contribution cs r"
  by (simp add: contribution_def)

lemma contribution_concat:
  "contribution (concat xss) r = sum_list (map (\<lambda>xs. contribution xs r) xss)"
  by (induction xss) (simp_all add: contribution_def)

lemma incident_calls:
  assumes "\<forall>c\<in>set cs. \<exists>i j w. c = (Row i, Row j, w) \<and> i < R \<and> j < R"
  shows "(\<Sum>b\<leftarrow>[0..<R]. \<Sum>(u, v, w)\<leftarrow>cs. if joins u v (Row r) (Row b) then w else 0)
         = contribution cs (Row r)"
  using assms
proof (induction cs)
  case Nil
  then show ?case by (simp add: contribution_def)
next
  case (Cons c cs)
  then obtain i j w where c: "c = (Row i, Row j, w)" and ij: "i < R" "j < R" by auto
  have "(\<Sum>b\<leftarrow>[0..<R]. \<Sum>(u, v, w)\<leftarrow>c # cs. if joins u v (Row r) (Row b) then w else 0)
        = (\<Sum>b\<leftarrow>[0..<R]. (if joins (Row i) (Row j) (Row r) (Row b) then w else 0)
             + (\<Sum>(u, v, w)\<leftarrow>cs. if joins u v (Row r) (Row b) then w else 0))"
    by (simp only: c list.map sum_list.Cons prod.case)
  also have "\<dots> = (\<Sum>b\<leftarrow>[0..<R]. if joins (Row i) (Row j) (Row r) (Row b) then w else 0)
             + (\<Sum>b\<leftarrow>[0..<R]. \<Sum>(u, v, w)\<leftarrow>cs. if joins u v (Row r) (Row b) then w else 0)"
    by (rule sum_list_addf)
  also have "\<dots> = (if i = r \<or> j = r then w else 0) + contribution cs (Row r)"
    using Cons by (simp only: call_total[OF ij]) simp
  also have "\<dots> = contribution (c # cs) (Row r)"
    by (simp add: contribution_Cons c touches_def)
  finally show ?case .
qed

lemma all_edges_rows:
  assumes "c \<in> set (all_edges (expanded data weights ws))"
  shows "\<exists>i j w. c = (Row i, Row j, w) \<and> i < length (rows data) \<and> j < length (rows data)"
proof -
  let ?G = "expanded data weights ws"
  obtain u v w where c: "c = (u, v, w)" by (cases c) auto
  from assms[unfolded c] obtain m m' where
    u: "u \<in> set (row_neighbors ?G m)" and v: "v \<in> set (row_neighbors ?G m')"
    by (rule all_edges_mem)
  have r: "\<exists>i. x = Row i \<and> i < length (rows data)" if "x \<in> set (row_neighbors ?G m)" for x m
  proof -
    from that have "is_row x" by (simp add: row_neighbors_iff)
    then obtain i where x: "x = Row i" by (cases x) simp_all
    from that[unfolded x] have "i < length (rows data)" by (rule expanded_row_neighbor)
    with x show ?thesis by blast
  qed
  from r[OF u] r[OF v] c show ?thesis by blast
qed

lemma incident_total:
  "(\<Sum>b\<leftarrow>[0..<length (rows data)].
       wt (prune_markers_minimal (expanded data weights ws)) (Row r) (Row b))
   = (\<Sum>d\<leftarrow>map fst (sorted_markers (expanded data weights ws)).
       contribution (dim_edges (expanded data weights ws)
                      (dim_markers (expanded data weights ws) d)) (Row r))"
proof -
  let ?G = "expanded data weights ws"
  have "(\<Sum>b\<leftarrow>[0..<length (rows data)]. wt (prune_markers_minimal ?G) (Row r) (Row b))
        = contribution (all_edges ?G) (Row r)"
    unfolding wt_reduced
    by (rule incident_calls) (use all_edges_rows in blast)
  also have "\<dots> = (\<Sum>d\<leftarrow>map fst (sorted_markers ?G).
       contribution (dim_edges ?G (dim_markers ?G d)) (Row r))"
    by (subst all_edges_dims) (simp add: contribution_concat o_def)
  finally show ?thesis .
qed

subsection \<open>Evaluation of the input with three bins\<close>

lemma tb_g0:
  "fold (\<lambda>i g. add_node g (Row i) None) [0..<length (rows three_bins)] empty_graph = g0_ex"
  by (simp add: three_bins_def g0_ex_def graph_defs upt_rec)

lemma tb_names:
  "marker_name 0 0 = Marker 0 False 0"
  "marker_name 0 2 = Marker 0 False 20000"
  "marker_name 0 4 = Marker 0 False 40000"
  "marker_name 0 6 = Marker 0 False 60000"
  by (simp_all add: marker_name_def round_half_even_def)

lemma tb_chain:
  "fold (chain_step 0 1 [0, 2, 4, 6]) [1..<4] (add_node g0_ex (Marker 0 False 0) (Some (0, 0)))
   = g3_tb"
  by (simp add: g0_ex_def g3_tb_def chain_step_def tb_names graph_defs upt_rec)

lemma tb_assign:
  "assign_rows 0 1 2 0 [0, 2, 4, 6] (enumerate 0 (rows three_bins)) g3_tb = Inr G_tb"
  by (simp add: fl_eval three_bins_def G_tb_def g3_tb_def py_index_def py_int_def tb_names graph_defs)

lemma tb_col: "column three_bins 0 = [0, 2, 3, 4]"
  by (simp add: column_def three_bins_def)

lemma tb_dim: "dim_step three_bins [1] 2 0 g0_ex = Inr G_tb"
proof -
  have 1: "np_max (column three_bins 0) = Inr 4" by (simp add: tb_col)
  have 2: "np_min (column three_bins 0) = Inr 0" by (simp add: tb_col)
  have 3: "marker_count 4 0 2 = Inr 3" by (simp add: fl_eval marker_count_def py_int_def)
  have 4: "marker_values 2 0 3 = [0, 2, 4, 6]" by (simp add: fl_eval marker_values_def upto.simps)
  show ?thesis
    using dim_step_eval[of 0 "[1]" three_bins 4 0 2 3 0 "[2, 4, 6]" g0_ex, OF _ 1 2 3 4]
      tb_chain tb_assign
    by (simp add: tb_names)
qed

lemma tb_expanded: "create_network three_bins [1] 2 = Inr G_tb"
  using tb_dim tb_g0 by (simp add: create_network_def three_bins_def)

lemma expanded_tb: "expanded three_bins [1] 2 = G_tb"
proof -
  have "valid_input three_bins [1] 2" by (simp add: valid_input_def three_bins_def)
  from create_network_expanded[OF this] tb_expanded show ?thesis by simp
qed

lemma tb_markers: "dim_markers G_tb 0 = ms_tb"
  by (simp add: dim_markers_def G_tb_def ms_tb_def dim_entries_Cons)

lemma tb_rn:
  "row_neighbors G_tb (Marker 0 False 0) = [Row 0]"
  "row_neighbors G_tb (Marker 0 False 20000) = [Row 1, Row 2]"
  "row_neighbors G_tb (Marker 0 False 40000) = [Row 3]"
  "row_neighbors G_tb (Marker 0 False 60000) = []"
  by (simp_all add: G_tb_def row_neighbors_def neighbors_def adj_of_def)

lemma tb_ew:
  "edge_weight G_tb (Marker 0 False 0) (Row 0) = 1"
  "edge_weight G_tb (Marker 0 False 20000) (Row 1) = 1"
  "edge_weight G_tb (Marker 0 False 40000) (Row 3) = 1"
  by (simp_all add: G_tb_def edge_weight_def adj_of_def)

lemma tb_edges:
  "dim_edges G_tb ms_tb =
     [(Row 0, Row 0, 1), (Row 0, Row 1, 1),
      (Row 1, Row 2, 1), (Row 2, Row 1, 1), (Row 1, Row 3, 1),
      (Row 3, Row 3, 1)]"
proof -
  have idx: "[0..<length ms_tb] = [0, 1, 2, 3]" by (simp add: ms_tb_def upt_rec)
  have 0: "marker_edges G_tb ms_tb 0 = [(Row 0, Row 0, 1), (Row 0, Row 1, 1)]"
    by (simp add: marker_edges_def ms_tb_def tb_rn tb_ew ring_edges_def bridge_edges_def)
  have 1: "marker_edges G_tb ms_tb 1 = [(Row 1, Row 2, 1), (Row 2, Row 1, 1), (Row 1, Row 3, 1)]"
    using tb_rn tb_ew
    by (simp add: marker_edges_def ms_tb_def ring_edges_def bridge_edges_def upt_rec)
  have 2: "marker_edges G_tb ms_tb 2 = [(Row 3, Row 3, 1)]"
    by (simp add: marker_edges_def ms_tb_def tb_rn tb_ew ring_edges_def bridge_edges_def)
  have 3: "marker_edges G_tb ms_tb 3 = []"
    by (simp add: marker_edges_def ms_tb_def tb_rn)
  show ?thesis unfolding dim_edges_def idx using 0 1 2 3 by simp
qed

lemma tb_contribution: "contribution (dim_edges G_tb ms_tb) (Row 1) = 4"
  by (simp add: tb_edges contribution_def touches_def)

lemma dim_graph_take:
  "d < n \<Longrightarrow> n \<le> length weights \<Longrightarrow>
   dim_graph data (take n weights) ws d g = dim_graph data weights ws d g"
  by (simp add: dim_graph_def)

lemma create_network_take:
  assumes "0 < ws" "rows data \<noteq> []" "ncols data \<le> length weights"
  shows "create_network data weights ws = create_network data (take (ncols data) weights) ws"
proof -
  have "fold (dim_graph data (take (ncols data) weights) ws) [0..<ncols data] (rows_added data)
        = fold (dim_graph data weights ws) [0..<ncols data] (rows_added data)"
    by (rule fold_cong) (use assms(3) in \<open>auto simp: dim_graph_take\<close>)
  then show ?thesis
    using assms by (simp add: create_network_valid)
qed

section \<open>The claims\<close>

text \<open>
  Claim C1. For the matrix with one column and the rows 0, 1, 2, 3, the weight vector
  [1] and the window 2, \<open>create_network\<close> returns a graph with 4 data nodes, 3 marker
  nodes with the values 0, 2, 4, 2 chain edges and 4 assignment edges, and
  \<open>prune_markers_minimal\<close> turns it into a graph on the 4 data nodes whose edges are
  exactly (0,1) with weight 2, (0,2) with weight 1 and (2,3) with weight 2.
\<close>

theorem C1_scenario:
  "create_network example_data [1] 2 = Inr G_ex
   \<and> filter is_row (map fst (nodes G_ex)) = [Row 0, Row 1, Row 2, Row 3]
   \<and> show_node_counts G_ex = \<lparr>data_nodes = 4, marker_nodes = 3, markers_by_dim = [(0, 3)]\<rparr>
   \<and> marker_attrs G_ex = [(0, 0), (0, 2), (0, 4)]
   \<and> length (chain_edges G_ex) = 2
   \<and> length (assignment_edges G_ex) = 4
   \<and> length (edges G_ex) = 6
   \<and> construct_net example_data [1] 2 = Inr (prune_markers_minimal G_ex)
   \<and> map fst (nodes (prune_markers_minimal G_ex)) = [Row 0, Row 1, Row 2, Row 3]
   \<and> edges (prune_markers_minimal G_ex) =
        [(Row 0, Row 1, 2), (Row 0, Row 2, 1), (Row 2, Row 3, 2)]"
proof -
  have "show_node_counts G_ex = \<lparr>data_nodes = 4, marker_nodes = 3, markers_by_dim = [(0, 3)]\<rparr>"
    by (simp add: show_node_counts_def G_ex_def count_dim_def)
  moreover have "marker_attrs G_ex = [(0, 0), (0, 2), (0, 4)]"
    by (simp add: marker_attrs_def G_ex_def List.map_filter_simps)
  moreover have "length (chain_edges G_ex) = 2"
    by (simp add: chain_edges_def edges_def G_ex_def adj_of_def)
  moreover have "length (assignment_edges G_ex) = 4"
    by (simp add: assignment_edges_def edges_def G_ex_def adj_of_def)
  moreover have "length (edges G_ex) = 6"
    by (simp add: edges_def G_ex_def adj_of_def)
  moreover have "filter is_row (map fst (nodes G_ex)) = [Row 0, Row 1, Row 2, Row 3]"
    by (simp add: G_ex_def)
  moreover have "edges R_ex = [(Row 0, Row 1, 2), (Row 0, Row 2, 1), (Row 2, Row 3, 2)]"
    by (simp add: edges_def R_ex_def adj_of_def)
  moreover have "map fst (nodes R_ex) = [Row 0, Row 1, Row 2, Row 3]"
    by (simp add: R_ex_def)
  ultimately show ?thesis
    by (simp add: example_expanded example_reduced example_net)
qed

text \<open>
  Claim C4, as the code has it. On a valid input, for every row \<open>r\<close> and every
  dimension \<open>d\<close>, the index of the marker of the row is
  \<^verbatim>\<open>int((value - min) / window_size)\<close>, the floor of that quotient as float64
  arithmetic gives it; it lies between 0 and \<open>n - 1\<close>, so it is in range of the
  \<open>n + 1\<close> markers; the builder joins the row to the marker with that index, with the
  weight of the dimension; and a row that holds the maximum of the column has the
  index \<open>n - 1\<close>, the last marker but one.
\<close>

theorem C4_bin_index:
  assumes "valid_input data weights ws" "r < length (rows data)" "d < ncols data"
  shows "np_min (column data d) = Inr (min_of data d)
    \<and> np_max (column data d) = Inr (max_of data d)
    \<and> marker_count (max_of data d) (min_of data d) ws = Inr (n_of data ws d)
    \<and> int (length (mvals data ws d)) = n_of data ws d + 1
    \<and> bin_index data ws d r = \<lfloor>fdiv (fsub (rows data ! r ! d) (min_of data d)) ws\<rfloor>
    \<and> 0 \<le> bin_index data ws d r
    \<and> bin_index data ws d r \<le> n_of data ws d - 1
    \<and> py_index (mvals data ws d) (bin_index data ws d r)
        = Inr (mvals data ws d ! nat (bin_index data ws d r))
    \<and> home data ws d r = marker_name d (mvals data ws d ! nat (bin_index data ws d r))
    \<and> create_network data weights ws = Inr (expanded data weights ws)
    \<and> weight_of (expanded data weights ws) (Row r) (home data ws d r) = Some (weights ! d)
    \<and> (rows data ! r ! d = max_of data d \<longrightarrow> bin_index data ws d r = n_of data ws d - 1)"
proof -
  from assms(1) have ws: "0 < ws" and ne: "rows data \<noteq> []"
    by (simp_all add: valid_input_def)
  have n1: "1 \<le> n_of data ws d" by (rule n_of_pos[OF ws ne])
  note b = bin_index_bounds[OF ws assms(2), of d]
  have idx: "py_index (mvals data ws d) (bin_index data ws d r)
        = Inr (mvals data ws d ! nat (bin_index data ws d r))"
    by (rule py_index_ok) (use b n1 in \<open>simp_all add: length_mvals\<close>)
  have hm: "home data ws d r = marker_name d (mvals data ws d ! nat (bin_index data ws d r))"
    using b by (simp add: home_def nth_mvals)
  have cnt: "marker_count (max_of data d) (min_of data d) ws = Inr (n_of data ws d)"
    using ws by (simp add: marker_count_def n_of_def)
  have len: "int (length (mvals data ws d)) = n_of data ws d + 1"
    using n1 by (simp add: length_mvals)
  have mx: "bin_index data ws d r = n_of data ws d - 1" if "rows data ! r ! d = max_of data d"
    by (rule bin_index_max[OF ws assms(2) that])
  have mn: "np_min (column data d) = Inr (min_of data d)"
    by (simp add: np_min_eq column_nonempty ne min_of_def)
  have mxx: "np_max (column data d) = Inr (max_of data d)"
    by (simp add: np_max_eq column_nonempty ne max_of_def)
  show ?thesis
    using mn mxx b idx hm cnt len mx create_network_expanded[OF assms(1)]
      weight_of_home[OF assms(2,3)]
    by blast
qed

theorem C4_bin_index_witness:
  "valid_input example_data [1] 2 \<and> 3 < length (rows example_data) \<and> 0 < ncols example_data
   \<and> rows example_data ! 3 ! 0 = max_of example_data 0
   \<and> bin_index example_data 2 0 3 = n_of example_data 2 0 - 1
   \<and> bin_index example_data 2 0 3 \<le> n_of example_data 2 0 - 1
   \<and> weight_of (expanded example_data [1] 2) (Row 3) (home example_data 2 0 3) = Some ([1] ! 0)"
proof -
  have 1: "valid_input example_data [1] 2" by (simp add: valid_input_def example_data_def)
  have 2: "3 < length (rows example_data)" by (simp add: example_data_def)
  have 3: "0 < ncols example_data" by (simp add: example_data_def)
  have 4: "rows example_data ! 3 ! 0 = max_of example_data 0"
    by (simp add: max_of_def ex_col) (simp add: example_data_def)
  show ?thesis using C4_bin_index[OF 1 2 3] 1 2 3 4 by blast
qed

text \<open>
  Claim C4 as it is written fails in the scenario of four rows: row 3 holds the maximum
  and has the index 1, while the last marker, the value 4, has the index \<open>n = 2\<close> and
  no edge to the row.
\<close>

theorem C4_counterexample:
  "create_network example_data [1] 2 = Inr G_ex
   \<and> rows example_data ! 3 ! 0 = max_of example_data 0
   \<and> n_of example_data 2 0 = 2
   \<and> bin_index example_data 2 0 3 = 1
   \<and> mvals example_data 2 0 = [0, 2, 4]
   \<and> weight_of G_ex (Row 3) (marker_name 0 2) = Some 1
   \<and> weight_of G_ex (Row 3) (marker_name 0 4) = None"
proof -
  have mx: "max_of example_data 0 = 3" by (simp add: max_of_def ex_col)
  have mn: "min_of example_data 0 = 0" by (simp add: min_of_def ex_col)
  have v: "rows example_data ! 3 ! 0 = 3" by (simp add: example_data_def)
  have n: "n_of example_data 2 0 = 2" by (simp add: fl_eval n_of_def mx mn py_int_def)
  have b: "bin_index example_data 2 0 3 = 1" by (simp add: fl_eval bin_index_def v mn py_int_def)
  have m: "mvals example_data 2 0 = [0, 2, 4]"
    by (simp add: fl_eval mvals_def n mn marker_values_def upto.simps)
  have w: "weight_of G_ex (Row 3) (Marker 0 False 20000) = Some 1"
     "weight_of G_ex (Row 3) (Marker 0 False 40000) = None"
    by (simp_all add: weight_of_def adj_of_def G_ex_def)
  show ?thesis using mx v n b m w by (simp add: example_expanded ex_names)
qed

text \<open>
  Claim C6. On a valid input the data nodes of the expanded graph are the rows 0 to
  R - 1, the reduced graph has exactly these nodes, in this order and without
  attributes, and so R nodes.
\<close>

theorem C6_reduced_nodes:
  assumes "valid_input data weights ws"
  shows "create_network data weights ws = Inr (expanded data weights ws)
    \<and> construct_net data weights ws = Inr (prune_markers_minimal (expanded data weights ws))
    \<and> filter is_row (map fst (nodes (expanded data weights ws))) = map Row [0..<length (rows data)]
    \<and> nodes (prune_markers_minimal (expanded data weights ws))
        = map (\<lambda>i. (Row i, None)) [0..<length (rows data)]
    \<and> set (filter is_row (map fst (nodes (expanded data weights ws))))
        \<subseteq> set (map fst (nodes (prune_markers_minimal (expanded data weights ws))))
    \<and> length (nodes (prune_markers_minimal (expanded data weights ws))) = length (rows data)"
proof -
  from assms have ws: "0 < ws" and ne: "rows data \<noteq> []"
    by (simp_all add: valid_input_def)
  have 1: "filter is_row (map fst (nodes (expanded data weights ws)))
      = map Row [0..<length (rows data)]"
    by (simp add: nodes_expanded[OF ws ne] rows_of_expanded_nodes)
  have 2: "nodes (prune_markers_minimal (expanded data weights ws))
      = map (\<lambda>i. (Row i, None)) [0..<length (rows data)]"
    by (rule nodes_pruned_expanded[OF ws ne])
  show ?thesis
    unfolding 1 2 using create_network_expanded[OF assms]
    by (simp add: construct_net_def comp_def)
qed

theorem C6_reduced_nodes_witness:
  "valid_input example_data [1] 2
   \<and> nodes (prune_markers_minimal (expanded example_data [1] 2))
       = map (\<lambda>i. (Row i, None)) [0..<length (rows example_data)]
   \<and> length (nodes (prune_markers_minimal (expanded example_data [1] 2))) = 4"
proof -
  have 1: "valid_input example_data [1] 2" by (simp add: valid_input_def example_data_def)
  have "length (rows example_data) = 4" by (simp add: example_data_def)
  then show ?thesis using C6_reduced_nodes[OF 1] 1 by simp
qed

text \<open>
  Claim C7, as the code has it. The builder has no check of its input and no error of
  its own. An empty matrix with at least one column and one weight makes \<^verbatim>\<open>np.max\<close>
  raise ValueError; a weights sequence shorter than the number of columns, with rows
  and a positive window, makes \<^verbatim>\<open>weights[dim]\<close> raise IndexError; the window 0, with
  a row, a column and a weight, makes \<^verbatim>\<open>int\<close> raise ValueError or OverflowError. No
  graph is returned then. A weights sequence longer than the number of columns, with
  rows and a positive window, is accepted: the builder returns the graph that the
  first weights alone give.
\<close>

theorem C7_errors:
  assumes "rows data0 = []" "0 < ncols data0" "weights0 \<noteq> []"
    and "rows data1 \<noteq> []" "0 < ws1" "length weights1 < ncols data1"
    and "rows data2 \<noteq> []" "0 < ncols data2" "weights2 \<noteq> []"
    and "rows data3 \<noteq> []" "0 < ws3" "ncols data3 < length weights3"
  shows "create_network data0 weights0 ws0 = Inl ValueError
    \<and> create_network data1 weights1 ws1 = Inl IndexError
    \<and> create_network data2 weights2 0
        = Inl (if fsub (max_of data2 0) (min_of data2 0) = 0 then ValueError
               else OverflowError)
    \<and> create_network data3 weights3 ws3 = Inr (expanded data3 weights3 ws3)
    \<and> create_network data3 weights3 ws3
        = create_network data3 (take (ncols data3) weights3) ws3"
proof -
  have le: "ncols data3 \<le> length weights3" using assms(12) by simp
  show ?thesis
    using create_network_empty[OF assms(1,2,3)] create_network_short_weights[OF assms(4,5,6)]
      create_network_zero_window[OF assms(7,8,9)]
      create_network_valid[OF assms(11,10) le] create_network_take[OF assms(11,10) le]
    by (simp add: expanded_def)
qed

theorem C7_errors_witness:
  "rows \<lparr>ncols = 1, rows = []\<rparr> = [] \<and> 0 < ncols \<lparr>ncols = 1, rows = []\<rparr> \<and> [1 :: rat] \<noteq> []
   \<and> rows example_data \<noteq> [] \<and> (0 :: rat) < 2 \<and> length ([] :: rat list) < ncols example_data
   \<and> ncols example_data < length [1 :: rat, 7]
   \<and> create_network \<lparr>ncols = 1, rows = []\<rparr> [1] 2 = Inl ValueError
   \<and> create_network example_data [] 2 = Inl IndexError
   \<and> create_network example_data [1] 0 = Inl OverflowError
   \<and> create_network example_data [1, 7] 2 = Inr (expanded example_data [1, 7] 2)"
proof -
  have a: "rows \<lparr>ncols = 1, rows = []\<rparr> = []" "0 < ncols \<lparr>ncols = 1, rows = []\<rparr>" "[1 :: rat] \<noteq> []"
    by simp_all
  have b: "rows example_data \<noteq> []" "(0 :: rat) < 2" "length ([] :: rat list) < ncols example_data"
    by (simp_all add: example_data_def)
  have c: "rows example_data \<noteq> []" "0 < ncols example_data" "[1 :: rat] \<noteq> []"
    by (simp_all add: example_data_def)
  have e: "rows example_data \<noteq> []" "(0 :: rat) < 2" "ncols example_data < length [1 :: rat, 7]"
    by (simp_all add: example_data_def)
  have d: "fsub (max_of example_data 0) (min_of example_data 0) \<noteq> 0"
    by (simp add: max_of_def min_of_def ex_col fl_eval)
  show ?thesis
    using C7_errors[OF a b c e, of 2] a b d e by simp
qed

text \<open>
  Claim C7 as it is written fails for the window \<open>- 1\<close> and for a weights sequence
  with two entries on one column: the builder returns a graph.
\<close>

theorem C7_counterexample:
  "create_network one_row [1] (- 1) = Inr G_neg
   \<and> length [1 :: rat, 7] \<noteq> ncols example_data
   \<and> create_network example_data [1, 7] 2 = Inr G_ex"
proof -
  have "create_network example_data [1, 7] 2
        = create_network example_data (take (ncols example_data) [1, 7]) 2"
    by (rule create_network_take) (simp_all add: example_data_def)
  also have "take (ncols example_data) [1 :: rat, 7] = [1]" by (simp add: example_data_def)
  finally show ?thesis by (simp add: neg_expanded example_expanded) (simp add: example_data_def)
qed





text \<open>
  Claim C5 at one row with the value 0, the weight 1 and the window 1/32768
  (0.000030517578125; every number here is a double and every operation is exact).
  The builder computes n = 1 and the two markers 0 and 1/32768; both print as
  \<^verbatim>\<open>0,0.0000\<close>, so the second \<^verbatim>\<open>add_node\<close> rewrites the first node and the chain
  edge is a self-loop: the graph has one marker node, with the value 1/32768, where
  the formula floor((max - min) / window) + 2 gives two.
\<close>

theorem C5_collision:
  "valid_input one_row [1] (1 / 32768)
   \<and> create_network one_row [1] (1 / 32768) = Inr G_tiny
   \<and> marker_count (max_of one_row 0) (min_of one_row 0) (1 / 32768) = Inr 1
   \<and> marker_values (1 / 32768) (min_of one_row 0) 1 = [0, 1 / 32768]
   \<and> marker_name 0 0 = marker_name 0 (1 / 32768)
   \<and> \<lfloor>(max_of one_row 0 - min_of one_row 0) / (1 / 32768)\<rfloor> + 2 = 2
   \<and> dim_entries (nodes G_tiny) 0 = [(Marker 0 False 0, 1 / 32768)]
   \<and> marker_nodes (show_node_counts G_tiny) = 1
   \<and> weight_of G_tiny (Marker 0 False 0) (Marker 0 False 0) = Some 1"
proof -
  have mx: "max_of one_row 0 = 0" and mn: "min_of one_row 0 = 0"
    by (simp_all add: max_of_def min_of_def one_col)
  have 1: "valid_input one_row [1] (1 / 32768)"
    by (simp add: valid_input_def one_row_def)
  have 2: "marker_count (max_of one_row 0) (min_of one_row 0) (1 / 32768) = Inr 1"
    unfolding mx mn by (simp add: fl_eval marker_count_def py_int_def)
  have 3: "marker_values (1 / 32768) (min_of one_row 0) 1 = [0, 1 / 32768]"
    unfolding mn by (simp add: fl_eval marker_values_def upto.simps)
  have 4: "marker_name 0 0 = marker_name 0 (1 / 32768)"
    by (simp add: tiny_names)
  have 5: "\<lfloor>(max_of one_row 0 - min_of one_row 0) / (1 / 32768)\<rfloor> + 2 = 2"
    unfolding mx mn by simp
  have 6: "dim_entries (nodes G_tiny) 0 = [(Marker 0 False 0, 1 / 32768)]"
    by (simp add: G_tiny_def dim_entries_Cons)
  have 7: "marker_nodes (show_node_counts G_tiny) = 1"
    by (simp add: show_node_counts_def G_tiny_def count_dim_def)
  have 8: "weight_of G_tiny (Marker 0 False 0) (Marker 0 False 0) = Some 1"
    by (simp add: weight_of_def adj_of_def G_tiny_def)
  show ?thesis using 1 tiny_expanded 2 3 4 5 6 7 8 by blast
qed

text \<open>
  Claim C10 at the same input. The marker with the highest value, 1/32768, is the one
  node \<^verbatim>\<open>0,0.0000\<close>; the row has the index 0, below n = 1, and is joined to that
  node all the same. In the collapse the node has the data neighbour 0 and forms a
  ring, the self-loop of row 0 with the weight 1.
\<close>

theorem C10_collision:
  "valid_input one_row [1] (1 / 32768)
   \<and> create_network one_row [1] (1 / 32768) = Inr G_tiny
   \<and> mvals one_row (1 / 32768) 0 = [0, 1 / 32768]
   \<and> n_of one_row (1 / 32768) 0 = 1
   \<and> bin_index one_row (1 / 32768) 0 0 = 0
   \<and> marker_attrs G_tiny = [(0, 1 / 32768)]
   \<and> sorted_markers G_tiny = [(0, [(marker_name 0 (1 / 32768), 1 / 32768)])]
   \<and> weight_of G_tiny (Row 0) (marker_name 0 (1 / 32768)) = Some 1
   \<and> row_neighbors G_tiny (marker_name 0 (1 / 32768)) = [Row 0]
   \<and> prune_markers_minimal G_tiny = R_tiny
   \<and> weight_of R_tiny (Row 0) (Row 0) = Some 1"
proof -
  have mx: "max_of one_row 0 = 0" and mn: "min_of one_row 0 = 0"
    by (simp_all add: max_of_def min_of_def one_col)
  have n: "n_of one_row (1 / 32768) 0 = 1" by (simp add: fl_eval n_of_def mx mn py_int_def)
  have "mvals one_row (1 / 32768) 0 = [0, 1 / 32768]"
    by (simp add: fl_eval mvals_def n mn marker_values_def upto.simps)
  moreover have "bin_index one_row (1 / 32768) 0 0 = 0"
  proof -
    have "rows one_row ! 0 ! 0 = 0" by (simp add: one_row_def)
    then show ?thesis by (simp add: fl_eval bin_index_def mn py_int_def)
  qed
  moreover have "marker_attrs G_tiny = [(0, 1 / 32768)]"
    by (simp add: marker_attrs_def G_tiny_def List.map_filter_simps)
  moreover have "weight_of G_tiny (Row 0) (Marker 0 False 0) = Some 1"
    by (simp add: weight_of_def adj_of_def G_tiny_def)
  moreover have "weight_of R_tiny (Row 0) (Row 0) = Some 1"
    by (simp add: weight_of_def adj_of_def R_tiny_def)
  moreover have "valid_input one_row [1] (1 / 32768)"
    by (simp add: valid_input_def one_row_def)
  ultimately show ?thesis
    by (simp add: tiny_expanded tiny_names tiny_rn tiny_reduced tiny_sorted n)
qed




end
